theory Spec2Isabelle
  imports Main "HOL-Library.Word" "HOL-Library.AList"
begin

unbundle bit_operations_syntax


section \<open>LRU-K replacer (lru\_k\_replacer.cpp)\<close>

text \<open>
  \<^verbatim>\<open>frame_id_t\<close> is a signed 32-bit integer on which the replacer only tests equality
  and order, so it is an \<open>int\<close>.  Timestamps are \<^verbatim>\<open>size_t\<close>: 64-bit words whose
  increment wraps.  Member names drop the trailing underscore of the source
  (\<^verbatim>\<open>k_\<close> is \<open>lru_k\<close>).  The three \<^verbatim>\<open>std::unordered_map\<close> members are association
  lists: the order of the list is the order in which the map is iterated, which the C++
  standard leaves open, so every statement below is made for an arbitrary list order.
  Every member function holds \<^verbatim>\<open>latch_\<close> from its first statement to its return, so
  each one is a function from the state before the call to the state after it.
\<close>

type_synonym frame_id_t = int
type_synonym timestamp = "64 word"

record LRUKReplacer =
  current_timestamp :: timestamp
  replacer_size :: nat
  lru_k :: nat
  hist_map :: "(frame_id_t \<times> timestamp list) list"
  last_map :: "(frame_id_t \<times> timestamp) list"
  evict_flag :: "(frame_id_t \<times> bool) list"

text \<open>\<^verbatim>\<open>static_cast<int>\<close> of a \<^verbatim>\<open>size_t\<close>: the low 32 bits, read as two's complement.\<close>

definition int_of_size_t :: "nat \<Rightarrow> int" where
  "int_of_size_t n = signed_take_bit 31 (int n)"

definition new_replacer :: "nat \<Rightarrow> nat \<Rightarrow> LRUKReplacer" where
  "new_replacer num_frames k =
     \<lparr>current_timestamp = 0, replacer_size = num_frames, lru_k = k,
      hist_map = [], last_map = [], evict_flag = []\<rparr>"

text \<open>\<^verbatim>\<open>m.find(f) != m.end()\<close>\<close>

definition contains :: "('a \<times> 'b) list \<Rightarrow> 'a \<Rightarrow> bool" where
  "contains m f \<longleftrightarrow> map_of m f \<noteq> None"

text \<open>
  The first loop of \<^verbatim>\<open>Evict\<close> (lines 20-25), over the entries of \<^verbatim>\<open>hist_map\<close>, carrying
  \<^verbatim>\<open>*frame_id\<close> and \<^verbatim>\<open>lr_ts\<close>.  \<^verbatim>\<open>front()\<close> of the history list is \<open>hd\<close>; the list is
  never empty in a state the replacer builds (see \<open>repl_inv\<close> below).
\<close>

fun scan_hist ::
  "(frame_id_t \<times> bool) list \<Rightarrow> (frame_id_t \<times> timestamp list) list \<Rightarrow>
   frame_id_t \<times> timestamp \<Rightarrow> frame_id_t \<times> timestamp" where
  "scan_hist ef [] (fid, lr_ts) = (fid, lr_ts)"
| "scan_hist ef ((f, l) # kvs) (fid, lr_ts) =
     (if contains ef f \<and> hd l < lr_ts then scan_hist ef kvs (f, hd l)
      else scan_hist ef kvs (fid, lr_ts))"

text \<open>The second loop (lines 33-38), over the entries of \<^verbatim>\<open>last_map\<close>.\<close>

fun scan_last ::
  "(frame_id_t \<times> bool) list \<Rightarrow> (frame_id_t \<times> timestamp) list \<Rightarrow>
   frame_id_t \<times> timestamp \<Rightarrow> frame_id_t \<times> timestamp" where
  "scan_last ef [] (fid, lr_ts) = (fid, lr_ts)"
| "scan_last ef ((f, t) # kvs) (fid, lr_ts) =
     (if contains ef f \<and> t < lr_ts then scan_last ef kvs (f, t)
      else scan_last ef kvs (fid, lr_ts))"

text \<open>
  \<^verbatim>\<open>Evict\<close> returns its \<^verbatim>\<open>bool\<close>, the value left in \<^verbatim>\<open>*frame_id\<close> and the new state.
\<close>

definition Evict :: "LRUKReplacer \<Rightarrow> bool \<times> frame_id_t \<times> LRUKReplacer" where
  "Evict r =
     (let r1 = r\<lparr>current_timestamp := current_timestamp r + 1\<rparr> in
      if hist_map r1 = [] \<and> last_map r1 = [] then (False, - 1, r1)
      else
        let (fid, lr_ts) =
              scan_hist (evict_flag r1) (hist_map r1) (- 1, current_timestamp r1) in
        if contains (hist_map r1) fid then
          (True, fid, r1\<lparr>hist_map := AList.delete fid (hist_map r1),
                          evict_flag := AList.delete fid (evict_flag r1)\<rparr>)
        else
          let (fid2, lr_ts2) = scan_last (evict_flag r1) (last_map r1) (fid, lr_ts) in
          if fid2 = - 1 then (False, fid2, r1)
          else (True, fid2, r1\<lparr>last_map := AList.delete fid2 (last_map r1),
                                  evict_flag := AList.delete fid2 (evict_flag r1)\<rparr>))"

text \<open>
  \<^verbatim>\<open>RecordAccess\<close> (lines 47-64).  \<^verbatim>\<open>hist_map[f]\<close> creates an empty list for a new key;
  \<^verbatim>\<open>push_back\<close> appends.
\<close>

definition RecordAccess :: "frame_id_t \<Rightarrow> LRUKReplacer \<Rightarrow> LRUKReplacer" where
  "RecordAccess frame_id r =
     (let r1 = r\<lparr>current_timestamp := current_timestamp r + 1\<rparr>;
          now = current_timestamp r1 in
      if frame_id \<ge> int_of_size_t (replacer_size r1) then r1
      else if contains (last_map r1) frame_id then
        r1\<lparr>last_map := AList.update frame_id now (last_map r1)\<rparr>
      else
        let l = (case map_of (hist_map r1) frame_id of None \<Rightarrow> [] | Some l \<Rightarrow> l) @ [now] in
        if length l \<ge> lru_k r1 then
          r1\<lparr>last_map := AList.update frame_id now (last_map r1),
              hist_map := AList.delete frame_id (hist_map r1)\<rparr>
        else r1\<lparr>hist_map := AList.update frame_id l (hist_map r1)\<rparr>)"

definition SetEvictable :: "frame_id_t \<Rightarrow> bool \<Rightarrow> LRUKReplacer \<Rightarrow> LRUKReplacer" where
  "SetEvictable frame_id set_evictable r =
     (let r1 = r\<lparr>current_timestamp := current_timestamp r + 1\<rparr> in
      if set_evictable \<and> \<not> contains (hist_map r1) frame_id
         \<and> \<not> contains (last_map r1) frame_id then r1
      else if set_evictable then
        r1\<lparr>evict_flag := AList.update frame_id True (evict_flag r1)\<rparr>
      else r1\<lparr>evict_flag := AList.delete frame_id (evict_flag r1)\<rparr>)"

definition Remove_frame :: "frame_id_t \<Rightarrow> LRUKReplacer \<Rightarrow> LRUKReplacer" where
  "Remove_frame frame_id r =
     (let r1 = r\<lparr>current_timestamp := current_timestamp r + 1\<rparr> in
      r1\<lparr>hist_map := AList.delete frame_id (hist_map r1),
          last_map := AList.delete frame_id (last_map r1),
          evict_flag := AList.delete frame_id (evict_flag r1)\<rparr>)"

definition Size :: "LRUKReplacer \<Rightarrow> nat" where
  "Size r = length (evict_flag r)"


subsection \<open>The representation invariant of the replacer\<close>

text \<open>
  \<open>evictable r f\<close>: the frame has an entry in \<^verbatim>\<open>evict_flag_\<close>.  \<open>repl_inv\<close> collects what
  every operation keeps true of the three maps as long as it is called with a frame id that
  is not negative and the clock has not wrapped: a frame is in at most one of the two
  phases, only tracked frames are evictable, a history list is not empty, shorter than
  \<open>K\<close>, in ascending order and in the past, and no tracked frame id is negative
  (\<open>- 1\<close> is what \<^verbatim>\<open>Evict\<close> uses for "no frame").
\<close>

definition evictable :: "LRUKReplacer \<Rightarrow> frame_id_t \<Rightarrow> bool" where
  "evictable r f \<longleftrightarrow> contains (evict_flag r) f"

definition hist_ok :: "timestamp \<Rightarrow> nat \<Rightarrow> frame_id_t \<times> timestamp list \<Rightarrow> bool" where
  "hist_ok now k e \<longleftrightarrow>
     0 \<le> fst e \<and> snd e \<noteq> [] \<and> length (snd e) < k \<and> sorted (snd e) \<and>
     (\<forall>t \<in> set (snd e). t \<le> now)"

definition last_ok :: "timestamp \<Rightarrow> frame_id_t \<times> timestamp \<Rightarrow> bool" where
  "last_ok now e \<longleftrightarrow> 0 \<le> fst e \<and> snd e \<le> now"

definition repl_inv :: "LRUKReplacer \<Rightarrow> bool" where
  "repl_inv r \<longleftrightarrow>
     distinct (map fst (hist_map r)) \<and> distinct (map fst (last_map r)) \<and>
     fst ` set (hist_map r) \<inter> fst ` set (last_map r) = {} \<and>
     fst ` set (evict_flag r) \<subseteq> fst ` set (hist_map r) \<union> fst ` set (last_map r) \<and>
     (\<forall>e \<in> set (hist_map r). hist_ok (current_timestamp r) (lru_k r) e) \<and>
     (\<forall>e \<in> set (last_map r). last_ok (current_timestamp r) e)"

text \<open>What \<open>Evict\<close> promises about its result \<open>(ok, f, r')\<close> in the state \<open>r\<close>.\<close>

definition Evict_post :: "LRUKReplacer \<Rightarrow> bool \<Rightarrow> frame_id_t \<Rightarrow> LRUKReplacer \<Rightarrow> bool" where
  "Evict_post r ok f r' \<longleftrightarrow>
     (ok \<longleftrightarrow> (\<exists>g. evictable r g)) \<and>
     (ok \<longrightarrow>
        evictable r f \<and>
        (if \<exists>g. evictable r g \<and> contains (hist_map r) g
         then \<exists>l. map_of (hist_map r) f = Some l \<and> length l < lru_k r \<and>
                (\<forall>t \<in> set l. hd l \<le> t) \<and>
                (\<forall>g l'. evictable r g \<and> map_of (hist_map r) g = Some l' \<longrightarrow> hd l \<le> hd l')
         else \<exists>t. map_of (last_map r) f = Some t \<and>
                (\<forall>g t'. evictable r g \<and> map_of (last_map r) g = Some t' \<longrightarrow> t \<le> t')) \<and>
        map_of (hist_map r') = (map_of (hist_map r))(f := None) \<and>
        map_of (last_map r') = (map_of (last_map r))(f := None) \<and>
        map_of (evict_flag r') = (map_of (evict_flag r))(f := None)) \<and>
     (\<not> ok \<longrightarrow>
        hist_map r' = hist_map r \<and> last_map r' = last_map r \<and> evict_flag r' = evict_flag r)"

text \<open>
  The replacer after the accesses 0, 1, 2, 0, 1 with \<open>K = 2\<close> and all three frames made
  evictable (the third end-to-end scenario of the specification).
\<close>

definition lruk_scenario :: LRUKReplacer where
  "lruk_scenario =
     SetEvictable 2 True (SetEvictable 1 True (SetEvictable 0 True
       (RecordAccess 1 (RecordAccess 0 (RecordAccess 2 (RecordAccess 1 (RecordAccess 0
          (new_replacer 3 2))))))))"

section \<open>Extendible hash table (extendible\_hash\_table.cpp)\<close>

text \<open>
  A bucket (\<^verbatim>\<open>size_\<close>, \<^verbatim>\<open>depth_\<close>, \<^verbatim>\<open>cell_\<close>).  The directory holds
  \<^verbatim>\<open>std::shared_ptr<Bucket>\<close>, and two slots may hold the same pointer, so the buckets
  live in a store, the list \<open>buckets\<close>, and a directory slot is an address into it.
  \<^verbatim>\<open>make_shared\<close> allocates at the end of the store; a bucket that no slot references any
  more stays in the store, unreachable.  \<^verbatim>\<open>std::hash<K>\<close> is a parameter \<open>hash\<close> of every
  operation that uses it; its \<^verbatim>\<open>size_t\<close> result is a natural number.
\<close>

record ('k, 'v) Bucket =
  size_b :: nat
  depth :: nat
  cell :: "('k \<times> 'v) list"

record ('k, 'v) ExtendibleHashTable =
  global_depth :: nat
  bucket_size :: nat
  bucket_cnt :: nat
  dir :: "nat list"
  buckets :: "('k, 'v) Bucket list"

definition new_bucket :: "nat \<Rightarrow> nat \<Rightarrow> ('k, 'v) Bucket" where
  "new_bucket array_size d = \<lparr>size_b = array_size, depth = d, cell = []\<rparr>"

definition new_table :: "nat \<Rightarrow> ('k, 'v) ExtendibleHashTable" where
  "new_table bsize =
     \<lparr>global_depth = 0, bucket_size = bsize, bucket_cnt = 1, dir = [0],
      buckets = [new_bucket bsize 0]\<rparr>"

text \<open>\<^verbatim>\<open>Bucket::IsFull\<close>, \<^verbatim>\<open>Bucket::Find\<close>, \<^verbatim>\<open>Bucket::Remove\<close>, \<^verbatim>\<open>Bucket::Insert\<close>.\<close>

definition IsFull :: "('k, 'v) Bucket \<Rightarrow> bool" where
  "IsFull b \<longleftrightarrow> length (cell b) = size_b b"

definition Bucket_Find :: "'k \<Rightarrow> ('k, 'v) Bucket \<Rightarrow> 'v option" where
  "Bucket_Find key b = map_of (cell b) key"

fun erase_first :: "'k \<Rightarrow> ('k \<times> 'v) list \<Rightarrow> ('k \<times> 'v) list" where
  "erase_first key [] = []"
| "erase_first key (kv # kvs) = (if fst kv = key then kvs else kv # erase_first key kvs)"

definition Bucket_Remove :: "'k \<Rightarrow> ('k, 'v) Bucket \<Rightarrow> bool \<times> ('k, 'v) Bucket" where
  "Bucket_Remove key b = (contains (cell b) key, b\<lparr>cell := erase_first key (cell b)\<rparr>)"

definition Bucket_Insert :: "'k \<Rightarrow> 'v \<Rightarrow> ('k, 'v) Bucket \<Rightarrow> bool \<times> ('k, 'v) Bucket" where
  "Bucket_Insert key val b =
     (if length (cell b) \<ge> size_b b then (False, b)
      else (True, b\<lparr>cell := cell b @ [(key, val)]\<rparr>))"

text \<open>
  \<^verbatim>\<open>IndexOf\<close>: \<^verbatim>\<open>std::hash<K>()(key) & ((1 << global_depth_) - 1)\<close>.  The mask is computed in
  \<^verbatim>\<open>int\<close>, which is exact as long as \<^verbatim>\<open>global_depth_\<close> is at most 30.
\<close>

definition IndexOf :: "('k \<Rightarrow> nat) \<Rightarrow> ('k, 'v) ExtendibleHashTable \<Rightarrow> 'k \<Rightarrow> nat" where
  "IndexOf hash t key = hash key AND (2 ^ global_depth t - 1)"

text \<open>\<^verbatim>\<open>dir_[IndexOf(key)]\<close>, dereferenced.\<close>

definition target :: "('k \<Rightarrow> nat) \<Rightarrow> ('k, 'v) ExtendibleHashTable \<Rightarrow> 'k \<Rightarrow> ('k, 'v) Bucket" where
  "target hash t key = buckets t ! (dir t ! IndexOf hash t key)"

definition Find :: "('k \<Rightarrow> nat) \<Rightarrow> 'k \<Rightarrow> ('k, 'v) ExtendibleHashTable \<Rightarrow> 'v option" where
  "Find hash key t = Bucket_Find key (target hash t key)"

definition Remove ::
  "('k \<Rightarrow> nat) \<Rightarrow> 'k \<Rightarrow> ('k, 'v) ExtendibleHashTable \<Rightarrow> bool \<times> ('k, 'v) ExtendibleHashTable" where
  "Remove hash key t =
     (let a = dir t ! IndexOf hash t key;
          (ok, b) = Bucket_Remove key (buckets t ! a)
      in (ok, t\<lparr>buckets := (buckets t)[a := b]\<rparr>))"

text \<open>
  One iteration of the \<^verbatim>\<open>while\<close> loop of \<^verbatim>\<open>Insert\<close> (lines 74-97): \<open>grow_dir\<close> is the
  doubling of the directory (lines 78-81: the vector is resized to twice its length and
  slot \<open>i + old_sz\<close> is assigned slot \<open>i\<close>), \<open>redistribute\<close> the loop over the items of
  the full bucket (lines 88-91), \<open>rewire\<close> the loop over the directory (lines 95-97).
\<close>

fun redistribute ::
  "('k \<Rightarrow> nat) \<Rightarrow> nat \<Rightarrow> ('k \<times> 'v) list \<Rightarrow> ('k, 'v) Bucket \<times> ('k, 'v) Bucket \<Rightarrow>
   ('k, 'v) Bucket \<times> ('k, 'v) Bucket" where
  "redistribute hash split_mask [] (zero_bucket, one_bucket) = (zero_bucket, one_bucket)"
| "redistribute hash split_mask ((k, v) # items) (zero_bucket, one_bucket) =
     (if hash k AND split_mask \<noteq> 0
      then redistribute hash split_mask items (zero_bucket, snd (Bucket_Insert k v one_bucket))
      else redistribute hash split_mask items (snd (Bucket_Insert k v zero_bucket), one_bucket))"

definition grow_dir :: "('k, 'v) ExtendibleHashTable \<Rightarrow> ('k, 'v) ExtendibleHashTable" where
  "grow_dir t = t\<lparr>global_depth := global_depth t + 1, dir := dir t @ dir t\<rparr>"

definition rewire :: "nat \<Rightarrow> nat \<Rightarrow> nat \<Rightarrow> nat \<Rightarrow> nat list \<Rightarrow> nat list" where
  "rewire bucket split_mask zero_addr one_addr d =
     map (\<lambda>i. if d ! i = bucket
               then (if i AND split_mask \<noteq> 0 then one_addr else zero_addr)
               else d ! i) [0..<length d]"

definition split_step ::
  "('k \<Rightarrow> nat) \<Rightarrow> 'k \<Rightarrow> ('k, 'v) ExtendibleHashTable \<Rightarrow> ('k, 'v) ExtendibleHashTable" where
  "split_step hash key t =
     (let idx = IndexOf hash t key;
          bucket = dir t ! idx;
          b = buckets t ! bucket;
          t1 = (if depth b = global_depth t then grow_dir t else t);
          split_mask = 2 ^ depth b;
          zero_addr = length (buckets t1);
          one_addr = length (buckets t1) + 1;
          (zero_bucket, one_bucket) =
             redistribute hash split_mask (cell b)
               (new_bucket (bucket_size t1) (depth b + 1),
                new_bucket (bucket_size t1) (depth b + 1))
      in t1\<lparr>bucket_cnt := bucket_cnt t1 + 1,
            buckets := buckets t1 @ [zero_bucket, one_bucket],
            dir := rewire bucket split_mask zero_addr one_addr (dir t1)\<rparr>)"

text \<open>
  The \<^verbatim>\<open>while\<close> loop itself.  Nothing bounds the number of its iterations in the source, so
  it is a partial function: \<open>None\<close> stands for a call that does not return a defined state.
  That includes the split that would take \<^verbatim>\<open>global_depth_\<close> to 31, after which
  \<^verbatim>\<open>(1 << global_depth_) - 1\<close> overflows \<^verbatim>\<open>int\<close>.
\<close>

partial_function (option) Insert_loop ::
  "('k \<Rightarrow> nat) \<Rightarrow> 'k \<Rightarrow> ('k, 'v) ExtendibleHashTable \<Rightarrow> ('k, 'v) ExtendibleHashTable option" where
  "Insert_loop hash key t =
     (if IsFull (target hash t key) then
        (if depth (target hash t key) = global_depth t \<and> 30 \<le> global_depth t then None
         else Insert_loop hash key (split_step hash key t))
      else Some t)"

declare Insert_loop.simps [code]

text \<open>
  The rest of \<^verbatim>\<open>Insert\<close> (lines 100-107): the first entry with the key gets the new value,
  or else the entry is appended by \<^verbatim>\<open>Bucket::Insert\<close>.
\<close>

fun overwrite :: "'k \<Rightarrow> 'v \<Rightarrow> ('k \<times> 'v) list \<Rightarrow> ('k \<times> 'v) list" where
  "overwrite key val [] = []"
| "overwrite key val (kv # kvs) =
     (if fst kv = key then (key, val) # kvs else kv # overwrite key val kvs)"

definition Insert_entry ::
  "('k \<Rightarrow> nat) \<Rightarrow> 'k \<Rightarrow> 'v \<Rightarrow> ('k, 'v) ExtendibleHashTable \<Rightarrow> ('k, 'v) ExtendibleHashTable" where
  "Insert_entry hash key val t =
     (let pos = IndexOf hash t key;
          a = dir t ! pos;
          b = buckets t ! a
      in if contains (cell b) key
         then t\<lparr>buckets := (buckets t)[a := b\<lparr>cell := overwrite key val (cell b)\<rparr>]\<rparr>
         else t\<lparr>buckets := (buckets t)[a := snd (Bucket_Insert key val b)]\<rparr>)"

definition Insert ::
  "('k \<Rightarrow> nat) \<Rightarrow> 'k \<Rightarrow> 'v \<Rightarrow> ('k, 'v) ExtendibleHashTable \<Rightarrow> ('k, 'v) ExtendibleHashTable option" where
  "Insert hash key val t = map_option (Insert_entry hash key val) (Insert_loop hash key t)"

text \<open>
  The directory invariant: the directory has \<open>2 ^ global_depth\<close> slots, every slot holds
  the address of a bucket whose local depth is at most the global depth, and two slots
  hold the same address iff their indices agree modulo \<open>2 ^ local depth\<close>.
\<close>

definition ht_inv :: "('k, 'v) ExtendibleHashTable \<Rightarrow> bool" where
  "ht_inv t \<longleftrightarrow>
     length (dir t) = 2 ^ global_depth t \<and>
     (\<forall>i < length (dir t). dir t ! i < length (buckets t) \<and>
        depth (buckets t ! (dir t ! i)) \<le> global_depth t) \<and>
     (\<forall>i < length (dir t). \<forall>j < length (dir t).
        (dir t ! i = dir t ! j) =
        (i mod 2 ^ depth (buckets t ! (dir t ! i)) = j mod 2 ^ depth (buckets t ! (dir t ! i))))"

text \<open>Sequences of operations on a table; \<^verbatim>\<open>Find\<close> leaves the table as it is.\<close>

datatype ('k, 'v) ht_op = OpInsert 'k 'v | OpRemove 'k | OpFind 'k

fun ht_apply ::
  "('k \<Rightarrow> nat) \<Rightarrow> ('k, 'v) ht_op \<Rightarrow> ('k, 'v) ExtendibleHashTable \<Rightarrow> ('k, 'v) ExtendibleHashTable option" where
  "ht_apply hash (OpInsert key val) t = Insert hash key val t"
| "ht_apply hash (OpRemove key) t = Some (snd (Remove hash key t))"
| "ht_apply hash (OpFind key) t = Some t"

fun ht_run ::
  "('k \<Rightarrow> nat) \<Rightarrow> ('k, 'v) ht_op list \<Rightarrow> ('k, 'v) ExtendibleHashTable \<Rightarrow> ('k, 'v) ExtendibleHashTable option" where
  "ht_run hash [] t = Some t"
| "ht_run hash (x # xs) t =
     (case ht_apply hash x t of None \<Rightarrow> None | Some t' \<Rightarrow> ht_run hash xs t')"

text \<open>
  Two tables over natural numbers hashed by the identity, with buckets of capacity 2:
  \<open>full_table\<close> after inserting the keys 1 and 2, whose only bucket is full,
  \<open>split_table\<close> and \<open>probe_table\<close>.
\<close>

definition full_table :: "(nat, nat) ExtendibleHashTable" where
  "full_table =
     \<lparr>global_depth = 0, bucket_size = 2, bucket_cnt = 1, dir = [0],
      buckets = [\<lparr>size_b = 2, depth = 0, cell = [(1, 10), (2, 20)]\<rparr>]\<rparr>"

definition split_table :: "(nat, nat) ExtendibleHashTable" where
  "split_table =
     \<lparr>global_depth = 1, bucket_size = 2, bucket_cnt = 2, dir = [1, 2],
      buckets = [\<lparr>size_b = 2, depth = 0, cell = [(1, 10), (2, 20)]\<rparr>,
                 \<lparr>size_b = 2, depth = 1, cell = [(2, 20)]\<rparr>,
                 \<lparr>size_b = 2, depth = 1, cell = [(1, 30)]\<rparr>]\<rparr>"

definition probe_table :: "(nat, nat) ExtendibleHashTable" where
  "probe_table =
     \<lparr>global_depth = 1, bucket_size = 2, bucket_cnt = 2, dir = [1, 2],
      buckets = [\<lparr>size_b = 2, depth = 0, cell = [(1, 10), (2, 20)]\<rparr>,
                 \<lparr>size_b = 2, depth = 1, cell = []\<rparr>,
                 \<lparr>size_b = 2, depth = 1, cell = [(1, 10), (3, 30)]\<rparr>]\<rparr>"

text \<open>
  What the manager relies on in its page table: the directory has \<open>2 ^ global_depth\<close>
  slots holding addresses of the store, and in every bucket the keys are distinct and the
  values satisfy \<open>V\<close>.
\<close>

definition bucket_ok :: "('v \<Rightarrow> bool) \<Rightarrow> ('k, 'v) Bucket \<Rightarrow> bool" where
  "bucket_ok V b \<longleftrightarrow> distinct (map fst (cell b)) \<and> (\<forall>kv \<in> set (cell b). V (snd kv))"

definition table_ok :: "('v \<Rightarrow> bool) \<Rightarrow> ('k, 'v) ExtendibleHashTable \<Rightarrow> bool" where
  "table_ok V t \<longleftrightarrow>
     length (dir t) = 2 ^ global_depth t \<and>
     (\<forall>a \<in> set (dir t). a < length (buckets t)) \<and>
     (\<forall>b \<in> set (buckets t). bucket_ok V b)"

text \<open>No bucket of the store holds more entries than its capacity.\<close>

definition within_capacity :: "('k, 'v) ExtendibleHashTable \<Rightarrow> bool" where
  "within_capacity t \<longleftrightarrow> (\<forall>b \<in> set (buckets t). length (cell b) \<le> size_b b)"

text \<open>Every bucket of the store was made with the capacity of the table.\<close>

definition capacity_ok :: "('k, 'v) ExtendibleHashTable \<Rightarrow> bool" where
  "capacity_ok t \<longleftrightarrow> (\<forall>b \<in> set (buckets t). size_b b = bucket_size t)"

section \<open>Buffer pool manager (buffer\_pool\_manager\_instance.cpp)\<close>

text \<open>
  Modelled from the spec: the class \<^verbatim>\<open>Page\<close> (storage/page/page.h is not among the
  sources).  A frame holds the resident page id, a pin count, a dirty flag and a buffer
  of \<^verbatim>\<open>PAGE_SIZE\<close> bytes; \<^verbatim>\<open>ResetMemory\<close> zeroes the buffer; a frame starts with the
  invalid page id, no pin, clean and zeroed.  \<^verbatim>\<open>page_id_t\<close> is a signed 32-bit integer
  that is only stored and compared, and \<^verbatim>\<open>pin_count_\<close> an \<^verbatim>\<open>int\<close>: both are \<open>int\<close>, and
  the one increment of the pin count is guarded below.
\<close>

type_synonym page_id_t = int
type_synonym page_data = "8 word list"

record Page =
  page_id :: page_id_t
  pin_count :: int
  is_dirty :: bool
  data :: page_data

text \<open>
  Modelled from the spec: the disk manager (storage/disk/disk\_manager.h is not among the
  sources), a page reader and writer keyed by page id whose calls do not fail.  The model
  keeps what the disk holds for each page id and the sequence of the writes it received.
\<close>

record DiskManager =
  contents :: "page_id_t \<Rightarrow> page_data"
  write_log :: "(page_id_t \<times> page_data) list"

definition WritePage :: "page_id_t \<Rightarrow> page_data \<Rightarrow> DiskManager \<Rightarrow> DiskManager" where
  "WritePage p d dm = dm\<lparr>contents := (contents dm)(p := d), write_log := write_log dm @ [(p, d)]\<rparr>"

definition ReadPage :: "page_id_t \<Rightarrow> DiskManager \<Rightarrow> page_data" where
  "ReadPage p dm = contents dm p"

text \<open>
  Modelled from the spec: what common/config.h and the standard library declare and the
  sources only use.  \<^verbatim>\<open>PAGE_SIZE\<close>, the sentinel \<^verbatim>\<open>INVALID_PAGE_ID\<close> and
  \<^verbatim>\<open>std::hash<page_id_t>\<close> are parameters of the model.
\<close>

record config =
  PAGE_SIZE :: nat
  INVALID_PAGE_ID :: page_id_t
  std_hash :: "page_id_t \<Rightarrow> nat"

definition ResetMemory :: "config \<Rightarrow> Page \<Rightarrow> Page" where
  "ResetMemory cfg p = p\<lparr>data := replicate (PAGE_SIZE cfg) 0\<rparr>"

definition new_page :: "config \<Rightarrow> Page" where
  "new_page cfg =
     \<lparr>page_id = INVALID_PAGE_ID cfg, pin_count = 0, is_dirty = False,
      data = replicate (PAGE_SIZE cfg) 0\<rparr>"

text \<open>
  The manager.  \<^verbatim>\<open>pages_\<close> is an array of \<^verbatim>\<open>pool_size_\<close> frames that is never
  reallocated: the model keeps it as a list, and \<^verbatim>\<open>pool_size_\<close> is its length.  The
  constructor fills the free list with \<^verbatim>\<open>static_cast<int>(i)\<close> for every frame index
  and creates the page table with \<^verbatim>\<open>bucket_size_ = 4\<close>.  Every operation holds
  \<^verbatim>\<open>latch_\<close> for its whole body, so each one is a function on the state.
\<close>

record BufferPoolManagerInstance =
  next_page_id :: page_id_t
  pages :: "Page list"
  disk_manager :: DiskManager
  page_table :: "(page_id_t, frame_id_t) ExtendibleHashTable"
  replacer :: LRUKReplacer
  free_list :: "frame_id_t list"

definition new_bpm :: "config \<Rightarrow> nat \<Rightarrow> DiskManager \<Rightarrow> nat \<Rightarrow> BufferPoolManagerInstance" where
  "new_bpm cfg n dm replacer_k =
     \<lparr>next_page_id = 0, pages = replicate n (new_page cfg),
      disk_manager = dm, page_table = new_table 4, replacer = new_replacer n replacer_k,
      free_list = map int_of_size_t [0..<n]\<rparr>"

definition pool_size :: "BufferPoolManagerInstance \<Rightarrow> nat" where
  "pool_size s = length (pages s)"

text \<open>
  \<^verbatim>\<open>pages_[frame]\<close> is defined for \<open>0 \<le> frame < pool_size_\<close> only.  An operation that
  would index the array elsewhere, increment a pin count of \<^verbatim>\<open>INT_MAX\<close>, or call an
  \<^verbatim>\<open>Insert\<close> of the page table that does not return, has the result \<open>None\<close>.
\<close>

definition frame_ok :: "BufferPoolManagerInstance \<Rightarrow> frame_id_t \<Rightarrow> bool" where
  "frame_ok s f \<longleftrightarrow> 0 \<le> f \<and> f < int (pool_size s)"

definition page_at :: "BufferPoolManagerInstance \<Rightarrow> frame_id_t \<Rightarrow> Page" where
  "page_at s f = pages s ! nat f"

definition set_page :: "frame_id_t \<Rightarrow> Page \<Rightarrow> BufferPoolManagerInstance \<Rightarrow> BufferPoolManagerInstance" where
  "set_page f p s = s\<lparr>pages := (pages s)[nat f := p]\<rparr>"

text \<open>\<^verbatim>\<open>next_page_id_++\<close> on a \<^verbatim>\<open>std::atomic<page_id_t>\<close>, which wraps.\<close>

definition AllocatePage :: "BufferPoolManagerInstance \<Rightarrow> page_id_t \<times> BufferPoolManagerInstance" where
  "AllocatePage s = (next_page_id s, s\<lparr>next_page_id := signed_take_bit 31 (next_page_id s + 1)\<rparr>)"

text \<open>\<^verbatim>\<open>disk_manager_->WritePage(page.GetPageId(), page.GetData()); page.is_dirty_ = false;\<close>\<close>

definition write_back :: "frame_id_t \<Rightarrow> BufferPoolManagerInstance \<Rightarrow> BufferPoolManagerInstance" where
  "write_back f s =
     (let p = page_at s f in
      set_page f (p\<lparr>is_dirty := False\<rparr>)
        (s\<lparr>disk_manager := WritePage (page_id p) (data p) (disk_manager s)\<rparr>))"

text \<open>
  Choosing a frame: lines 51-74 of \<^verbatim>\<open>NewPgImp\<close> and, with other variable names, lines
  115-134 of \<^verbatim>\<open>FetchPgImp\<close>.  The result is \<open>None\<close> in the first component where the
  source returns \<^verbatim>\<open>nullptr\<close>.
\<close>

definition acquire_frame ::
  "config \<Rightarrow> BufferPoolManagerInstance \<Rightarrow> (frame_id_t option \<times> BufferPoolManagerInstance) option" where
  "acquire_frame cfg s =
     (case free_list s of
        f # fs \<Rightarrow> Some (Some f, s\<lparr>free_list := fs\<rparr>)
      | [] \<Rightarrow>
         (case Evict (replacer s) of
            (ok, frame, r) \<Rightarrow>
              let s1 = s\<lparr>replacer := r\<rparr> in
              if \<not> ok then Some (None, s1)
              else if \<not> frame_ok s1 frame then None
              else if page_id (page_at s1 frame) \<noteq> INVALID_PAGE_ID cfg then
                let s2 = (if is_dirty (page_at s1 frame) then write_back frame s1 else s1);
                    s3 = s2\<lparr>page_table :=
                            snd (Remove (std_hash cfg) (page_id (page_at s2 frame)) (page_table s2))\<rparr>;
                    s4 = s3\<lparr>replacer := Remove_frame frame (replacer s3)\<rparr>
                in Some (Some frame, s4)
              else Some (Some frame, s1)))"

text \<open>
  The common end of both functions: \<^verbatim>\<open>page_table_->Insert\<close>, \<^verbatim>\<open>replacer_->RecordAccess\<close>,
  \<^verbatim>\<open>replacer_->SetEvictable(frame, false)\<close>.
\<close>

definition install ::
  "config \<Rightarrow> page_id_t \<Rightarrow> frame_id_t \<Rightarrow> BufferPoolManagerInstance \<Rightarrow> BufferPoolManagerInstance option" where
  "install cfg pid frame s =
     (case Insert (std_hash cfg) pid frame (page_table s) of
        None \<Rightarrow> None
      | Some pt \<Rightarrow>
          Some (s\<lparr>page_table := pt,
                   replacer := SetEvictable frame False (RecordAccess frame (replacer s))\<rparr>))"

text \<open>
  \<^verbatim>\<open>NewPgImp\<close> returns the page pointer, here the frame index, together with the value
  written to \<^verbatim>\<open>*page_id\<close>.
\<close>

definition NewPgImp ::
  "config \<Rightarrow> BufferPoolManagerInstance \<Rightarrow>
   ((page_id_t \<times> frame_id_t) option \<times> BufferPoolManagerInstance) option" where
  "NewPgImp cfg s =
     (case acquire_frame cfg s of
        None \<Rightarrow> None
      | Some (None, s1) \<Rightarrow> Some (None, s1)
      | Some (Some frame, s1) \<Rightarrow>
          if \<not> frame_ok s1 frame then None
          else
            let (new_id, s2) = AllocatePage s1;
                page = (ResetMemory cfg (page_at s2 frame))
                         \<lparr>page_id := new_id, is_dirty := False, pin_count := 1\<rparr>
            in map_option (Pair (Some (new_id, frame)))
                 (install cfg new_id frame (set_page frame page s2)))"

definition FetchPgImp ::
  "config \<Rightarrow> page_id_t \<Rightarrow> BufferPoolManagerInstance \<Rightarrow>
   (frame_id_t option \<times> BufferPoolManagerInstance) option" where
  "FetchPgImp cfg pid s =
     (case Find (std_hash cfg) pid (page_table s) of
        Some frame \<Rightarrow>
          if \<not> frame_ok s frame \<or> pin_count (page_at s frame) = 2 ^ 31 - 1 then None
          else
            let page = page_at s frame;
                s1 = set_page frame (page\<lparr>pin_count := pin_count page + 1\<rparr>) s
            in Some (Some frame,
                 s1\<lparr>replacer := SetEvictable frame False (RecordAccess frame (replacer s1))\<rparr>)
      | None \<Rightarrow>
         (case acquire_frame cfg s of
            None \<Rightarrow> None
          | Some (None, s1) \<Rightarrow> Some (None, s1)
          | Some (Some victim, s1) \<Rightarrow>
              if \<not> frame_ok s1 victim then None
              else
                let page = (ResetMemory cfg (page_at s1 victim))
                             \<lparr>data := ReadPage pid (disk_manager s1), page_id := pid,
                               is_dirty := False, pin_count := 1\<rparr>
                in map_option (Pair (Some victim))
                     (install cfg pid victim (set_page victim page s1))))"

definition UnpinPgImp ::
  "config \<Rightarrow> page_id_t \<Rightarrow> bool \<Rightarrow> BufferPoolManagerInstance \<Rightarrow>
   (bool \<times> BufferPoolManagerInstance) option" where
  "UnpinPgImp cfg pid dirty s =
     (case Find (std_hash cfg) pid (page_table s) of
        None \<Rightarrow> Some (False, s)
      | Some frame \<Rightarrow>
          if \<not> frame_ok s frame then None
          else if pin_count (page_at s frame) \<le> 0 then Some (False, s)
          else
            let page = page_at s frame;
                page1 = page\<lparr>pin_count := pin_count page - 1\<rparr>;
                page2 = (if dirty then page1\<lparr>is_dirty := True\<rparr> else page1);
                s1 = set_page frame page2 s
            in Some (True,
                 if pin_count page2 = 0
                 then s1\<lparr>replacer := SetEvictable frame True (replacer s1)\<rparr>
                 else s1))"

definition FlushPgImp ::
  "config \<Rightarrow> page_id_t \<Rightarrow> BufferPoolManagerInstance \<Rightarrow>
   (bool \<times> BufferPoolManagerInstance) option" where
  "FlushPgImp cfg pid s =
     (case Find (std_hash cfg) pid (page_table s) of
        None \<Rightarrow> Some (False, s)
      | Some frame \<Rightarrow>
          if \<not> frame_ok s frame then None
          else
            let page = page_at s frame;
                s1 = s\<lparr>disk_manager := WritePage pid (data page) (disk_manager s)\<rparr>
            in Some (True, set_page frame (page\<lparr>is_dirty := False\<rparr>) s1))"

text \<open>One iteration of the loop of \<^verbatim>\<open>FlushAllPgsImp\<close>, and the loop.\<close>

definition flush_frame :: "config \<Rightarrow> nat \<Rightarrow> BufferPoolManagerInstance \<Rightarrow> BufferPoolManagerInstance" where
  "flush_frame cfg i s =
     (if page_id (pages s ! i) \<noteq> INVALID_PAGE_ID cfg then write_back (int i) s else s)"

definition FlushAllPgsImp ::
  "config \<Rightarrow> BufferPoolManagerInstance \<Rightarrow> BufferPoolManagerInstance" where
  "FlushAllPgsImp cfg s = fold (flush_frame cfg) [0..<pool_size s] s"

definition DeletePgImp ::
  "config \<Rightarrow> page_id_t \<Rightarrow> BufferPoolManagerInstance \<Rightarrow>
   (bool \<times> BufferPoolManagerInstance) option" where
  "DeletePgImp cfg pid s =
     (case Find (std_hash cfg) pid (page_table s) of
        None \<Rightarrow> Some (True, s)
      | Some frame \<Rightarrow>
          if \<not> frame_ok s frame then None
          else if pin_count (page_at s frame) > 0 then Some (False, s)
          else
            let s1 = (if is_dirty (page_at s frame) then write_back frame s else s);
                s2 = s1\<lparr>page_table := snd (Remove (std_hash cfg) pid (page_table s1))\<rparr>;
                s3 = s2\<lparr>replacer := Remove_frame frame (replacer s2)\<rparr>;
                page = (ResetMemory cfg (page_at s3 frame))
                         \<lparr>page_id := INVALID_PAGE_ID cfg, pin_count := 0, is_dirty := False\<rparr>;
                s4 = set_page frame page s3
            in Some (True, s4\<lparr>free_list := free_list s4 @ [frame]\<rparr>))"

text \<open>Sequences of manager operations; the values they return are dropped.\<close>

datatype bpm_op =
  NewPage | FetchPage page_id_t | UnpinPage page_id_t bool | FlushPage page_id_t
  | FlushAllPages | DeletePage page_id_t

fun bpm_step :: "config \<Rightarrow> bpm_op \<Rightarrow> BufferPoolManagerInstance \<Rightarrow> BufferPoolManagerInstance option" where
  "bpm_step cfg NewPage s = map_option snd (NewPgImp cfg s)"
| "bpm_step cfg (FetchPage p) s = map_option snd (FetchPgImp cfg p s)"
| "bpm_step cfg (UnpinPage p d) s = map_option snd (UnpinPgImp cfg p d s)"
| "bpm_step cfg (FlushPage p) s = map_option snd (FlushPgImp cfg p s)"
| "bpm_step cfg FlushAllPages s = Some (FlushAllPgsImp cfg s)"
| "bpm_step cfg (DeletePage p) s = map_option snd (DeletePgImp cfg p s)"

fun bpm_run :: "config \<Rightarrow> bpm_op list \<Rightarrow> BufferPoolManagerInstance \<Rightarrow> BufferPoolManagerInstance option" where
  "bpm_run cfg [] s = Some s"
| "bpm_run cfg (x # xs) s =
     (case bpm_step cfg x s of None \<Rightarrow> None | Some s' \<Rightarrow> bpm_run cfg xs s')"

text \<open>
  A configuration with pages of two bytes, \<open>- 1\<close> as the invalid page id and the
  conversion to \<^verbatim>\<open>size_t\<close> as hash, an empty disk, and the pool of one frame after one
  \<open>NewPage\<close>.
\<close>

definition test_cfg :: config where
  "test_cfg = \<lparr>PAGE_SIZE = 2, INVALID_PAGE_ID = - 1, std_hash = (\<lambda>p. nat (p mod 2 ^ 64))\<rparr>"

definition test_disk :: DiskManager where
  "test_disk = \<lparr>contents = (\<lambda>_. [0, 0]), write_log = []\<rparr>"

definition pinned_pool :: BufferPoolManagerInstance where
  "pinned_pool =
     \<lparr>next_page_id = 1,
      pages = [\<lparr>page_id = 0, pin_count = 1, is_dirty = False, data = [0, 0]\<rparr>],
      disk_manager = test_disk,
      page_table = \<lparr>global_depth = 0, bucket_size = 4, bucket_cnt = 1, dir = [0],
                     buckets = [\<lparr>size_b = 4, depth = 0, cell = [(0, 0)]\<rparr>]\<rparr>,
      replacer = \<lparr>current_timestamp = 2, replacer_size = 1, lru_k = 2,
                   hist_map = [(0, [1])], last_map = [], evict_flag = []\<rparr>,
      free_list = []\<rparr>"

text \<open>
  \<open>tracked r f\<close>: the replacer holds a history or a most-recent timestamp for the frame.
  \<open>pinned_not_evictable\<close>: no frame of the pool with a positive pin count is evictable.
\<close>

definition tracked :: "LRUKReplacer \<Rightarrow> frame_id_t \<Rightarrow> bool" where
  "tracked r f \<longleftrightarrow> contains (hist_map r) f \<or> contains (last_map r) f"

definition pinned_not_evictable :: "BufferPoolManagerInstance \<Rightarrow> bool" where
  "pinned_not_evictable s \<longleftrightarrow>
     (\<forall>f < pool_size s. 0 < pin_count (pages s ! f) \<longrightarrow> \<not> evictable (replacer s) (int f))"

text \<open>
  What holds in every state of a pool of fewer than \<open>2 ^ 31\<close> frames (shown below for
  all states reached from the new pool): the replacer is sized for the pool; the page
  table is well formed and maps to frames of the pool; the free list and the replacer
  hold frames of the pool only; a pinned frame is tracked by the replacer and not
  evictable.
\<close>

definition wf_core :: "BufferPoolManagerInstance \<Rightarrow> bool" where
  "wf_core s \<longleftrightarrow>
     pool_size s < 2 ^ 31 \<and> replacer_size (replacer s) = pool_size s \<and>
     table_ok (frame_ok s) (page_table s) \<and>
     (\<forall>f \<in> set (free_list s). frame_ok s f) \<and>
     (\<forall>f. tracked (replacer s) f \<longrightarrow> frame_ok s f)"

definition pinned_tracked :: "BufferPoolManagerInstance \<Rightarrow> bool" where
  "pinned_tracked s \<longleftrightarrow>
     (\<forall>f < pool_size s. 0 < pin_count (pages s ! f) \<longrightarrow> tracked (replacer s) (int f))"

definition bpm_wf :: "BufferPoolManagerInstance \<Rightarrow> bool" where
  "bpm_wf s \<longleftrightarrow> wf_core s \<and> pinned_tracked s \<and> pinned_not_evictable s"

text \<open>The pool of one frame after \<open>NewPage\<close> and \<open>UnpinPage 0 True\<close>.\<close>

definition unpinned_pool :: BufferPoolManagerInstance where
  "unpinned_pool =
     \<lparr>next_page_id = 1,
      pages = [\<lparr>page_id = 0, pin_count = 0, is_dirty = True, data = [0, 0]\<rparr>],
      disk_manager = test_disk,
      page_table = \<lparr>global_depth = 0, bucket_size = 4, bucket_cnt = 1, dir = [0],
                     buckets = [\<lparr>size_b = 4, depth = 0, cell = [(0, 0)]\<rparr>]\<rparr>,
      replacer = \<lparr>current_timestamp = 3, replacer_size = 1, lru_k = 2,
                   hist_map = [(0, [1])], last_map = [], evict_flag = [(0, True)]\<rparr>,
      free_list = []\<rparr>"

subsection \<open>Lemmas on the replacer\<close>

lemma hist_okD:
  "hist_ok now k (f, l) \<Longrightarrow> 0 \<le> f \<and> l \<noteq> [] \<and> length l < k \<and> sorted l \<and> hd l \<le> now \<and> (\<forall>t \<in> set l. hd l \<le> t)"
  by (cases l) (auto simp: hist_ok_def)

lemma repl_inv_histD: "repl_inv r \<Longrightarrow> (f, l) \<in> set (hist_map r) \<Longrightarrow> hist_ok (current_timestamp r) (lru_k r) (f, l)"
  by (simp add: repl_inv_def)

lemma repl_inv_lastD: "repl_inv r \<Longrightarrow> (f, t) \<in> set (last_map r) \<Longrightarrow> 0 \<le> f \<and> t \<le> current_timestamp r"
  by (auto simp: repl_inv_def last_ok_def)

lemma word_le_less_succ: "x \<le> c \<Longrightarrow> c + 1 \<noteq> 0 \<Longrightarrow> x < c + (1::'a::len word)"
  by (metis (no_types, lifting) ext add.commute add_0 add_right_cancel
    linorder_not_le olen_add_eqv order_le_imp_less_or_eq order_le_less_trans
    word_less_1 zero_neq_one)
 

lemma contains_iff: "contains m f \<longleftrightarrow> f \<in> fst ` set m"
  by (simp add: contains_def map_of_eq_None_iff)

lemma scan_last_cases:
  "scan_last ef kvs (fid0, lr0) = (fid, lr) \<Longrightarrow>
     (\<forall>(f, t) \<in> set kvs. contains ef f \<longrightarrow> lr \<le> t) \<and> lr \<le> lr0 \<and>
     ((fid, lr) = (fid0, lr0) \<or> ((fid, lr) \<in> set kvs \<and> contains ef fid \<and> lr < lr0))"
proof (induction kvs arbitrary: fid0 lr0)
  case Nil
  then show ?case by simp
next
  case (Cons kv kvs)
  obtain f t where kv: "kv = (f, t)" by (cases kv)
  show ?case
  proof (cases "contains ef f \<and> t < lr0")
    case True
    with Cons.prems kv have "scan_last ef kvs (f, t) = (fid, lr)" by simp
    from Cons.IH [OF this] True kv show ?thesis by auto
  next
    case False
    with Cons.prems kv have "scan_last ef kvs (fid0, lr0) = (fid, lr)" by simp
    from Cons.IH [OF this] False kv show ?thesis by auto
  qed
qed

lemma scan_hist_eq_scan_last:
  "scan_hist ef kvs acc = scan_last ef (map (\<lambda>(f, l). (f, hd l)) kvs) acc"
  by (induction ef kvs acc rule: scan_hist.induct) auto

lemma scan_hist_cases:
  assumes "scan_hist ef kvs (fid0, lr0) = (fid, lr)"
  shows "(\<forall>(f, l) \<in> set kvs. contains ef f \<longrightarrow> lr \<le> hd l) \<and> lr \<le> lr0 \<and>
     ((fid, lr) = (fid0, lr0) \<or>
      (\<exists>l. (fid, l) \<in> set kvs \<and> hd l = lr \<and> contains ef fid \<and> lr < lr0))"
proof -
  from assms have "scan_last ef (map (\<lambda>(f, l). (f, hd l)) kvs) (fid0, lr0) = (fid, lr)"
    by (simp add: scan_hist_eq_scan_last)
  from scan_last_cases [OF this] show ?thesis by force
qed

lemma Evict_empty:
  "hist_map r = [] \<Longrightarrow> last_map r = [] \<Longrightarrow>
   Evict r = (False, - 1, r\<lparr>current_timestamp := current_timestamp r + 1\<rparr>)"
  by (simp add: Evict_def)

lemma Evict_hist:
  assumes "scan_hist (evict_flag r) (hist_map r) (- 1, current_timestamp r + 1) = (fid, lr)"
    and "contains (hist_map r) fid"
  shows "Evict r = (True, fid, r\<lparr>current_timestamp := current_timestamp r + 1,
            hist_map := AList.delete fid (hist_map r),
            evict_flag := AList.delete fid (evict_flag r)\<rparr>)"
proof -
  from assms(2) have "hist_map r \<noteq> []" by (auto simp: contains_def)
  with assms show ?thesis by (simp add: Evict_def)
qed

lemma Evict_last:
  assumes "hist_map r \<noteq> [] \<or> last_map r \<noteq> []"
    and "scan_hist (evict_flag r) (hist_map r) (- 1, current_timestamp r + 1) = (fid, lr)"
    and "\<not> contains (hist_map r) fid"
    and "scan_last (evict_flag r) (last_map r) (fid, lr) = (fid2, lr2)"
  shows "Evict r =
     (if fid2 = - 1 then (False, fid2, r\<lparr>current_timestamp := current_timestamp r + 1\<rparr>)
      else (True, fid2, r\<lparr>current_timestamp := current_timestamp r + 1,
            last_map := AList.delete fid2 (last_map r),
            evict_flag := AList.delete fid2 (evict_flag r)\<rparr>))"
  using assms by (auto simp: Evict_def)

lemma repl_inv_hist_past:
  assumes "repl_inv r" and "current_timestamp r + 1 \<noteq> 0" and "(f, l) \<in> set (hist_map r)"
  shows "hd l < current_timestamp r + 1"
proof -
  from assms(1,3) have "hd l \<le> current_timestamp r"
    by (blast dest: repl_inv_histD hist_okD)
  then show ?thesis using assms(2) by (rule word_le_less_succ)
qed

lemma repl_inv_last_past:
  assumes "repl_inv r" and "current_timestamp r + 1 \<noteq> 0" and "(f, t) \<in> set (last_map r)"
  shows "t < current_timestamp r + 1"
proof -
  from assms(1,3) have "t \<le> current_timestamp r"
    by (blast dest: repl_inv_lastD)
  then show ?thesis using assms(2) by (rule word_le_less_succ)
qed

lemma map_of_delete_absent:
  "\<not> contains m f \<Longrightarrow> map_of m = (map_of m)(f := None)"
  by (auto simp: contains_def)

lemma int_of_size_t_small: "n < 2 ^ 31 \<Longrightarrow> int_of_size_t n = int n"
  unfolding int_of_size_t_def
  by (rule signed_take_bit_int_eq_self) (simp_all add: nat_less_numeral_power_cancel_iff)

lemma repl_inv_new: "repl_inv (new_replacer n k)"
  by (simp add: repl_inv_def new_replacer_def)

lemma step_le: "t \<le> c \<Longrightarrow> c + 1 \<noteq> 0 \<Longrightarrow> t \<le> c + (1::'a::len word)"
  using word_le_less_succ [of t c] by simp

lemma hist_ok_tick: "hist_ok now k e \<Longrightarrow> now + 1 \<noteq> 0 \<Longrightarrow> hist_ok (now + 1) k e"
  by (auto simp: hist_ok_def intro: step_le)

lemma last_ok_tick: "last_ok now e \<Longrightarrow> now + 1 \<noteq> 0 \<Longrightarrow> last_ok (now + 1) e"
  by (auto simp: last_ok_def intro: step_le)

lemma repl_inv_tick:
  assumes "repl_inv r" and "current_timestamp r + 1 \<noteq> 0"
  shows "repl_inv (r\<lparr>current_timestamp := current_timestamp r + 1\<rparr>)"
  using assms unfolding repl_inv_def
  by (auto intro: hist_ok_tick last_ok_tick)

lemma set_delete: "set (AList.delete k al) \<subseteq> set al"
  by (auto simp: AList.delete_eq)

lemma keys_delete: "fst ` set (AList.delete f al) = fst ` set al - {f}"
  by (auto simp: AList.delete_eq)

lemma repl_inv_SetEvictable:
  assumes "repl_inv r" and "current_timestamp r + 1 \<noteq> 0"
  shows "repl_inv (SetEvictable f b r)"
proof -
  have i: "repl_inv (r\<lparr>current_timestamp := current_timestamp r + 1\<rparr>)"
    using assms by (rule repl_inv_tick)
  then show ?thesis
    unfolding SetEvictable_def Let_def repl_inv_def
    by (auto simp: dom_update contains_iff keys_delete)
qed

lemma repl_inv_Remove:
  assumes "repl_inv r" and "current_timestamp r + 1 \<noteq> 0"
  shows "repl_inv (Remove_frame f r)"
proof -
  have i: "repl_inv (r\<lparr>current_timestamp := current_timestamp r + 1\<rparr>)"
    using assms by (rule repl_inv_tick)
  have s: "set (AList.delete f al) \<subseteq> set al" for al :: "(int \<times> 'x) list"
    by (rule set_delete)
  from i show ?thesis
    unfolding Remove_frame_def Let_def repl_inv_def
    using s [of "hist_map r"] s [of "last_map r"]
    by (auto simp: keys_delete distinct_delete)
qed

lemma set_update: "set (AList.update k v al) \<subseteq> insert (k, v) (set al)"
  by (induction al) auto

lemma repl_inv_drop_hist:
  assumes "repl_inv r"
  shows "repl_inv (r\<lparr>hist_map := AList.delete f (hist_map r),
                      evict_flag := AList.delete f (evict_flag r)\<rparr>)"
  using assms set_delete [of f "hist_map r"] unfolding repl_inv_def
  by (auto simp: keys_delete distinct_delete)

lemma repl_inv_drop_last:
  assumes "repl_inv r"
  shows "repl_inv (r\<lparr>last_map := AList.delete f (last_map r),
                      evict_flag := AList.delete f (evict_flag r)\<rparr>)"
  using assms set_delete [of f "last_map r"] unfolding repl_inv_def
  by (auto simp: keys_delete distinct_delete)

lemma repl_inv_Evict:
  assumes "repl_inv r" and "current_timestamp r + 1 \<noteq> 0"
  shows "repl_inv (snd (snd (Evict r)))"
proof -
  let ?r1 = "r\<lparr>current_timestamp := current_timestamp r + 1\<rparr>"
  have i: "repl_inv ?r1"
    using assms by (rule repl_inv_tick)
  from repl_inv_drop_hist [OF i] repl_inv_drop_last [OF i] i show ?thesis
    by (simp add: Evict_def Let_def split: prod.splits)
qed

lemma hist_ok_append:
  assumes "\<And>l. map_of h f = Some l \<Longrightarrow> hist_ok now k (f, l)" and "now + 1 \<noteq> 0" and "0 \<le> f"
    and "length ((case map_of h f of None \<Rightarrow> [] | Some l \<Rightarrow> l) @ [now + 1]) < k"
  shows "hist_ok (now + 1) k (f, (case map_of h f of None \<Rightarrow> [] | Some l \<Rightarrow> l) @ [now + 1])"
proof (cases "map_of h f")
  case None
  with assms show ?thesis by (simp add: hist_ok_def)
next
  case (Some l)
  then have "hist_ok now k (f, l)" by (rule assms(1))
  then have "sorted l" "\<forall>t \<in> set l. t \<le> now + 1"
    using assms(2) by (auto simp: hist_ok_def intro: step_le)
  with Some assms show ?thesis by (auto simp: hist_ok_def sorted_append)
qed

lemma repl_inv_RecordAccess:
  assumes inv: "repl_inv r" and now: "current_timestamp r + 1 \<noteq> 0" and f: "0 \<le> f"
  shows "repl_inv (RecordAccess f r)"
proof -
  let ?now = "current_timestamp r + 1"
  let ?r1 = "r\<lparr>current_timestamp := ?now\<rparr>"
  let ?l = "(case map_of (hist_map r) f of None \<Rightarrow> [] | Some l \<Rightarrow> l) @ [?now]"
  have i: "repl_inv ?r1"
    using inv now by (rule repl_inv_tick)
  have a: "repl_inv (?r1\<lparr>last_map := AList.update f ?now (last_map r)\<rparr>)"
    if "contains (last_map r) f"
    using i that f set_update [of f ?now "last_map r"] unfolding repl_inv_def
    by (auto simp: dom_update contains_iff distinct_update last_ok_def)
  have b: "repl_inv (?r1\<lparr>last_map := AList.update f ?now (last_map r),
                          hist_map := AList.delete f (hist_map r)\<rparr>)"
    using i f set_update [of f ?now "last_map r"] set_delete [of f "hist_map r"]
    unfolding repl_inv_def
    by (auto simp: dom_update keys_delete distinct_update distinct_delete last_ok_def)
  have c: "repl_inv (?r1\<lparr>hist_map := AList.update f ?l (hist_map r)\<rparr>)"
    if nl: "\<not> contains (last_map r) f" and len: "length ?l < lru_k r"
  proof -
    have "hist_ok (current_timestamp r) (lru_k r) (f, l)" if "map_of (hist_map r) f = Some l" for l
      using inv that by (auto dest: map_of_SomeD repl_inv_histD)
    then have "hist_ok ?now (lru_k r) (f, ?l)"
      using now f len by (rule hist_ok_append)
    with i nl set_update [of f ?l "hist_map r"] show ?thesis
      unfolding repl_inv_def
      by (auto simp: dom_update contains_iff distinct_update)
  qed
  from i a b c show ?thesis
    by (simp add: RecordAccess_def Let_def not_le)
qed

lemma int_of_size_t_3: "int_of_size_t 3 = 3"
  by (simp add: int_of_size_t_def)

lemma lruk_scenario_eq:
  "lruk_scenario = \<lparr>current_timestamp = 8, replacer_size = 3, lru_k = 2,
      hist_map = [(2, [3])], last_map = [(0, 4), (1, 5)],
      evict_flag = [(0, True), (1, True), (2, True)]\<rparr>"
  by (simp add: lruk_scenario_def new_replacer_def RecordAccess_def SetEvictable_def
      contains_def int_of_size_t_3)

lemma lruk_scenario_inv: "repl_inv lruk_scenario"
  by (simp add: lruk_scenario_eq repl_inv_def hist_ok_def last_ok_def)

lemma lruk_scenario_Evict:
  "Evict lruk_scenario = (True, 2, \<lparr>current_timestamp = 9, replacer_size = 3, lru_k = 2,
      hist_map = [], last_map = [(0, 4), (1, 5)],
      evict_flag = [(0, True), (1, True)]\<rparr>)"
  by (simp add: lruk_scenario_eq Evict_def contains_def)

subsection \<open>Victim selection\<close>

text \<open>
  The policy of \<open>Evict\<close> on the states the replacer builds from calls with frame ids
  that are not negative.  In every state that satisfies \<open>repl_inv\<close> and whose clock is not
  at its last value, \<open>Evict\<close> returns \<open>(ok, f, r')\<close> with \<open>Evict_post\<close>: it succeeds iff
  some frame is evictable; the victim \<open>f\<close> is evictable; if an evictable frame is in the
  history phase, \<open>f\<close> is in the history phase (fewer than \<open>K\<close> accesses recorded), the
  front of its history is its oldest access, and no evictable history-phase frame has an
  earlier front; otherwise \<open>f\<close> is in the steady phase and no evictable steady-phase frame
  has an earlier most-recent timestamp; on success exactly the entries of \<open>f\<close> leave the
  three maps, and on failure the three maps are unchanged.
\<close>

theorem Evict_policy:
  assumes inv: "repl_inv r" and now: "current_timestamp r + 1 \<noteq> 0"
    and ev: "Evict r = (ok, f, r')"
  shows "Evict_post r ok f r'"
proof (cases "hist_map r = [] \<and> last_map r = []")
  case True
  with inv have "evict_flag r = []" by (simp add: repl_inv_def)
  then have "\<not> evictable r g" for g by (simp add: evictable_def contains_def)
  moreover from True ev have "\<not> ok" "r' = r\<lparr>current_timestamp := current_timestamp r + 1\<rparr>"
    by (simp_all add: Evict_empty)
  ultimately show ?thesis by (simp add: Evict_post_def)
next
  case ne: False
  let ?E = "evict_flag r" and ?H = "hist_map r" and ?L = "last_map r"
  let ?now = "current_timestamp r + 1"
  obtain fid lr where sh: "scan_hist ?E ?H (- 1, ?now) = (fid, lr)"
    by (cases "scan_hist ?E ?H (- 1, ?now)")
  note shc = scan_hist_cases [OF sh]
  from inv have dH: "distinct (map fst ?H)" and dL: "distinct (map fst ?L)"
    and disj: "fst ` set ?H \<inter> fst ` set ?L = {}"
    and sub: "fst ` set ?E \<subseteq> fst ` set ?H \<union> fst ` set ?L"
    by (simp_all add: repl_inv_def)
  show ?thesis
  proof (cases "\<exists>g. evictable r g \<and> contains ?H g")
    case True
    then obtain g where g1: "contains ?E g" "contains ?H g"
      by (auto simp: evictable_def)
    then obtain lg where "(g, lg) \<in> set ?H"
      by (auto simp: contains_iff)
    with g1 have g: "contains ?E g" "(g, lg) \<in> set ?H" by simp_all
    from shc g have "lr \<le> hd lg" by auto
    also from inv now g(2) have "hd lg < ?now" by (rule repl_inv_hist_past)
    finally have "lr < ?now" .
    with shc obtain l where l: "(fid, l) \<in> set ?H" "hd l = lr" "contains ?E fid"
      by auto
    from l(1) have cH: "contains ?H fid" by (force simp: contains_iff)
    from Evict_hist [OF sh cH] ev
    have res: "ok" "f = fid" "hist_map r' = AList.delete fid ?H" "last_map r' = ?L"
      "evict_flag r' = AList.delete fid ?E"
      by simp_all
    from dH l(1) have ml: "map_of ?H fid = Some l" by simp
    from inv l(1) have len: "length l < lru_k r" and oldest: "\<forall>t \<in> set l. hd l \<le> t"
      by (blast dest: repl_inv_histD hist_okD)+
    have least: "hd l \<le> hd l'" if "evictable r g'" "map_of ?H g' = Some l'" for g' l'
    proof -
      from that(2) have "(g', l') \<in> set ?H" by (rule map_of_SomeD)
      with shc that(1) l(2) show ?thesis by (auto simp: evictable_def)
    qed
    from cH disj have "\<not> contains ?L fid" by (auto simp: contains_iff)
    then have "map_of ?L = (map_of ?L)(fid := None)" by (rule map_of_delete_absent)
    with res True l(3) ml len oldest least show ?thesis
      unfolding Evict_post_def by (auto simp: evictable_def delete_conv')
  next
    case noH: False
    have unchanged: "(fid, lr) = (- 1, ?now)"
    proof (rule ccontr)
      assume "(fid, lr) \<noteq> (- 1, ?now)"
      with shc obtain l where "(fid, l) \<in> set ?H" "contains ?E fid" by auto
      with noH show False by (force simp: evictable_def contains_iff)
    qed
    have "\<not> contains ?H (- 1)"
    proof
      assume "contains ?H (- 1)"
      then obtain l where "(- 1, l) \<in> set ?H" by (auto simp: contains_iff)
      with inv have "(0::int) \<le> - 1" by (blast dest: repl_inv_histD hist_okD)
      then show False by simp
    qed
    with unchanged have ncH: "\<not> contains ?H fid" by simp
    obtain fid2 lr2 where sl: "scan_last ?E ?L (fid, lr) = (fid2, lr2)"
      by (cases "scan_last ?E ?L (fid, lr)")
    from sl unchanged have sl': "scan_last ?E ?L (- 1, ?now) = (fid2, lr2)" by simp
    note slc = scan_last_cases [OF sl']
    from ne have ne': "?H \<noteq> [] \<or> ?L \<noteq> []" by simp
    note E = Evict_last [OF ne' sh ncH sl]
    show ?thesis
    proof (cases "\<exists>g. evictable r g")
      case True
      then obtain g where g: "contains ?E g" by (auto simp: evictable_def)
      with sub noH have "g \<in> fst ` set ?L" by (auto simp: evictable_def contains_iff)
      then obtain tg where tg: "(g, tg) \<in> set ?L" by auto
      from slc g tg have "lr2 \<le> tg" by auto
      also from inv now tg have "tg < ?now" by (rule repl_inv_last_past)
      finally have "lr2 < ?now" .
      with slc have m: "(fid2, lr2) \<in> set ?L" "contains ?E fid2" by auto
      from inv m(1) have "0 \<le> fid2" by (blast dest: repl_inv_lastD)
      then have "fid2 \<noteq> - 1" by simp
      with E ev have res: "ok" "f = fid2" "hist_map r' = ?H" "last_map r' = AList.delete fid2 ?L"
        "evict_flag r' = AList.delete fid2 ?E"
        by simp_all
      from dL m(1) have ml: "map_of ?L fid2 = Some lr2" by simp
      have least: "lr2 \<le> t'" if "evictable r g'" "map_of ?L g' = Some t'" for g' t'
      proof -
        from that(2) have "(g', t') \<in> set ?L" by (rule map_of_SomeD)
        with slc that(1) show ?thesis by (auto simp: evictable_def)
      qed
      from m(1) disj have "\<not> contains ?H fid2" by (force simp: contains_iff)
      then have "map_of ?H = (map_of ?H)(fid2 := None)" by (rule map_of_delete_absent)
      with res True noH m(2) ml least show ?thesis
        unfolding Evict_post_def by (auto simp: evictable_def delete_conv')
    next
      case False
      have "(fid2, lr2) = (- 1, ?now)"
      proof (rule ccontr)
        assume "(fid2, lr2) \<noteq> (- 1, ?now)"
        with slc have "contains ?E fid2" by auto
        with False show False by (auto simp: evictable_def)
      qed
      with E ev have "\<not> ok" "r' = r\<lparr>current_timestamp := current_timestamp r + 1\<rparr>"
        by simp_all
      with False show ?thesis by (simp add: Evict_post_def)
    qed
  qed
qed

theorem Evict_policy_witness:
  "repl_inv lruk_scenario \<and> current_timestamp lruk_scenario + 1 \<noteq> 0 \<and>
   Evict lruk_scenario = (True, 2, \<lparr>current_timestamp = 9, replacer_size = 3, lru_k = 2,
      hist_map = [], last_map = [(0, 4), (1, 5)], evict_flag = [(0, True), (1, True)]\<rparr>) \<and>
   Evict_post lruk_scenario True 2 \<lparr>current_timestamp = 9, replacer_size = 3, lru_k = 2,
      hist_map = [], last_map = [(0, 4), (1, 5)], evict_flag = [(0, True), (1, True)]\<rparr>"
proof -
  have n: "current_timestamp lruk_scenario + 1 \<noteq> 0"
    by (simp add: lruk_scenario_eq)
  from Evict_policy [OF lruk_scenario_inv n lruk_scenario_Evict]
    lruk_scenario_inv n lruk_scenario_Evict
  show ?thesis by simp
qed

subsection \<open>Recording an access\<close>

lemma RecordAccess_ignored:
  "int_of_size_t (replacer_size r) \<le> f \<Longrightarrow>
   RecordAccess f r = r\<lparr>current_timestamp := current_timestamp r + 1\<rparr>"
  by (simp add: RecordAccess_def)

lemma RecordAccess_steady:
  "f < int_of_size_t (replacer_size r) \<Longrightarrow> contains (last_map r) f \<Longrightarrow>
   RecordAccess f r = r\<lparr>current_timestamp := current_timestamp r + 1,
     last_map := AList.update f (current_timestamp r + 1) (last_map r)\<rparr>"
  by (simp add: RecordAccess_def)

lemma RecordAccess_history:
  "f < int_of_size_t (replacer_size r) \<Longrightarrow> \<not> contains (last_map r) f \<Longrightarrow>
   l = (case map_of (hist_map r) f of None \<Rightarrow> [] | Some l \<Rightarrow> l) @ [current_timestamp r + 1] \<Longrightarrow>
   RecordAccess f r =
     (if lru_k r \<le> length l
      then r\<lparr>current_timestamp := current_timestamp r + 1,
             last_map := AList.update f (current_timestamp r + 1) (last_map r),
             hist_map := AList.delete f (hist_map r)\<rparr>
      else r\<lparr>current_timestamp := current_timestamp r + 1,
             hist_map := AList.update f l (hist_map r)\<rparr>)"
  by (simp add: RecordAccess_def Let_def)

text \<open>
  Claim C6.  \<open>RecordAccess\<close> is to ignore a frame id that is out of range, but the guard of
  the source compares only against the upper end, \<^verbatim>\<open>frame_id >= static_cast<int>(replacer_size_)\<close>:
  on a new replacer for 3 frames with \<open>K = 2\<close>, \<open>RecordAccess (- 1)\<close> creates a history for
  the frame id \<open>- 1\<close>.
\<close>

theorem RecordAccess_negative_frame_tracked:
  "hist_map (RecordAccess (- 1) (new_replacer 3 2)) = [(- 1, [1])] \<and>
   hist_map (new_replacer 3 2) = []"
  by (simp add: RecordAccess_def new_replacer_def contains_def int_of_size_t_3)

subsection \<open>Victim selection when the frame id \<open>- 1\<close> is tracked\<close>

text \<open>
  Claim C1.  \<open>Evict\<close> is to consider evictable frames only and to fail iff no frame is
  evictable.  It starts from \<^verbatim>\<open>*frame_id = -1\<close> and decides that the first loop chose a
  victim by looking \<^verbatim>\<open>*frame_id\<close> up in \<^verbatim>\<open>hist_map_\<close> (line 27).  \<open>RecordAccess\<close> accepts
  the frame id \<open>- 1\<close> (its guard has no lower bound, see above): on a new replacer for 3 frames with
  \<open>K = 2\<close>, after \<open>RecordAccess (- 1)\<close> no frame is evictable, \<open>Size\<close> is 0, and \<open>Evict\<close>
  succeeds with the victim \<open>- 1\<close>, whose history it erases.
\<close>

theorem Evict_reports_unevictable_frame:
  "evict_flag (RecordAccess (- 1) (new_replacer 3 2)) = [] \<and>
   Size (RecordAccess (- 1) (new_replacer 3 2)) = 0 \<and>
   Evict (RecordAccess (- 1) (new_replacer 3 2)) =
     (True, - 1, \<lparr>current_timestamp = 2, replacer_size = 3, lru_k = 2,
        hist_map = [], last_map = [], evict_flag = []\<rparr>)"
  by (simp add: RecordAccess_def new_replacer_def contains_def int_of_size_t_3 Evict_def Size_def)

text \<open>
  Two more runs through the same defect.  With frame 0 evictable in the steady phase and
  \<open>- 1\<close> in the history phase and not evictable, \<open>Evict\<close> takes \<open>- 1\<close> and leaves frame 0.
  With \<open>K = 1\<close> and \<open>- 1\<close> evictable in the steady phase, the second loop selects \<open>- 1\<close>
  and line 40 takes it for "no frame": \<open>Evict\<close> fails although a frame is evictable.
\<close>

lemma Evict_prefers_negative_frame:
  "Evict (RecordAccess (- 1) (SetEvictable 0 True (RecordAccess 0 (RecordAccess 0
      (new_replacer 3 2))))) =
     (True, - 1, \<lparr>current_timestamp = 5, replacer_size = 3, lru_k = 2,
        hist_map = [], last_map = [(0, 2)], evict_flag = [(0, True)]\<rparr>)"
  by (simp add: RecordAccess_def SetEvictable_def new_replacer_def contains_def int_of_size_t_3
      Evict_def)

lemma Evict_misses_negative_frame:
  "Evict (SetEvictable (- 1) True (RecordAccess (- 1) (new_replacer 3 1))) =
     (False, - 1, \<lparr>current_timestamp = 3, replacer_size = 3, lru_k = 1,
        hist_map = [], last_map = [(- 1, 1)], evict_flag = [(- 1, True)]\<rparr>)"
  by (simp add: RecordAccess_def SetEvictable_def new_replacer_def contains_def int_of_size_t_3
      Evict_def)

section \<open>Properties of the hash table\<close>

lemma IndexOf_mod: "IndexOf hash t key = hash key mod 2 ^ global_depth t"
proof -
  have "hash key AND (2 ^ global_depth t - 1) = hash key AND mask (global_depth t)"
    by (simp only: mask_eq_exp_minus_1)
  also have "\<dots> = take_bit (global_depth t) (hash key)"
    by (simp only: take_bit_eq_mask)
  finally show ?thesis
    by (simp only: IndexOf_def take_bit_eq_mod)
qed

lemma IndexOf_less: "length (dir t) = 2 ^ global_depth t \<Longrightarrow> IndexOf hash t key < length (dir t)"
  by (simp add: IndexOf_mod)

lemma bit_test: "(i AND 2 ^ d \<noteq> 0) = bit i d" for i :: nat
  by (simp add: and_exp_eq_0_iff_not_bit)

lemma mod_Suc_exp_iff:
  fixes i j :: nat
  shows "(i mod 2 ^ Suc d = j mod 2 ^ Suc d) \<longleftrightarrow>
         (i mod 2 ^ d = j mod 2 ^ d \<and> bit i d = bit j d)"
proof -
  have lt: "take_bit d x < 2 ^ d" for x :: nat by simp
  have "(take_bit (Suc d) i = take_bit (Suc d) j) \<longleftrightarrow>
        (take_bit d i = take_bit d j \<and> bit i d = bit j d)"
    using lt [of i] lt [of j]
    by (auto simp: take_bit_Suc_from_most simp del: take_bit_nat_less_exp)
  then show ?thesis by (simp only: take_bit_eq_mod)
qed

lemma nth_double: "i < 2 * length d \<Longrightarrow> (d @ d) ! i = d ! (i mod length d)"
  by (auto simp: nth_append not_less le_mod_geq)

lemma mod_mod_exp: "a \<le> b \<Longrightarrow> (i mod 2 ^ b) mod 2 ^ a = i mod (2 ^ a :: nat)"
  by (simp add: mod_mod_cancel le_imp_power_dvd)

lemma ht_inv_grow:
  assumes "ht_inv t"
  shows "ht_inv (grow_dir t)"
proof -
  let ?n = "length (dir t)"
  from assms have n: "?n = 2 ^ global_depth t" by (simp add: ht_inv_def)
  have nth: "(dir t @ dir t) ! i = dir t ! (i mod ?n)" if "i < 2 * ?n" for i
    using that by (rule nth_double)
  have lt: "i mod ?n < ?n" for i using n by simp
  have d: "depth (buckets t ! (dir t ! (i mod ?n))) \<le> global_depth t" for i
    using assms lt [of i] by (simp add: ht_inv_def)
  have "(dir t ! (i mod ?n) = dir t ! (j mod ?n)) =
        (i mod 2 ^ depth (buckets t ! (dir t ! (i mod ?n))) =
         j mod 2 ^ depth (buckets t ! (dir t ! (i mod ?n))))" for i j
  proof -
    let ?d = "depth (buckets t ! (dir t ! (i mod ?n)))"
    from assms lt [of i] lt [of j]
    have "(dir t ! (i mod ?n) = dir t ! (j mod ?n)) = ((i mod ?n) mod 2 ^ ?d = (j mod ?n) mod 2 ^ ?d)"
      unfolding ht_inv_def by blast
    with d [of i] show ?thesis by (simp add: n mod_mod_exp)
  qed
  with assms lt d show ?thesis
    by (auto simp: ht_inv_def grow_dir_def nth n le_SucI)
qed


lemma length_rewire: "length (rewire a m z o' d) = length d"
  by (simp add: rewire_def)

lemma nth_rewire:
  "i < length d \<Longrightarrow>
   rewire a (2 ^ k) z o' d ! i = (if d ! i = a then (if bit i k then o' else z) else d ! i)"
  for i :: nat
proof -
  have "(0 < i AND 2 ^ k) = bit i k"
    using bit_test [of i k] by simp
  then show ?thesis if "i < length d"
    using that by (simp add: rewire_def)
qed

lemma Bucket_Insert_depth: "depth (snd (Bucket_Insert k v b)) = depth b"
  by (simp add: Bucket_Insert_def)

lemma Bucket_Insert_size: "size_b (snd (Bucket_Insert k v b)) = size_b b"
  by (simp add: Bucket_Insert_def)

lemma redistribute_depth:
  "depth (fst (redistribute hash m items (z, o'))) = depth z \<and>
   depth (snd (redistribute hash m items (z, o'))) = depth o'"
  by (induction items arbitrary: z o') (auto simp: Bucket_Insert_depth)

lemma redistribute_size:
  "size_b (fst (redistribute hash m items (z, o'))) = size_b z \<and>
   size_b (snd (redistribute hash m items (z, o'))) = size_b o'"
  by (induction items arbitrary: z o') (auto simp: Bucket_Insert_size)

lemma ht_inv_rewire:
  assumes inv: "ht_inv t" and idx: "idx < length (dir t)"
    and d: "d = depth (buckets t ! (dir t ! idx))" and lt: "d < global_depth t"
    and zb: "depth zb = Suc d" and ob: "depth ob = Suc d"
  shows "ht_inv (t\<lparr>bucket_cnt := c, buckets := buckets t @ [zb, ob],
            dir := rewire (dir t ! idx) (2 ^ d) (length (buckets t)) (Suc (length (buckets t))) (dir t)\<rparr>)"
    (is "ht_inv ?t'")
proof -
  let ?a = "dir t ! idx" and ?n = "length (buckets t)"
  let ?D = "rewire ?a (2 ^ d) ?n (Suc ?n) (dir t)" and ?B = "buckets t @ [zb, ob]"
  have len: "length ?D = length (dir t)" by (simp add: length_rewire)
  from inv have n: "length (dir t) = 2 ^ global_depth t"
    and valid: "\<And>i. i < length (dir t) \<Longrightarrow> dir t ! i < ?n"
    and dep: "\<And>i. i < length (dir t) \<Longrightarrow> depth (buckets t ! (dir t ! i)) \<le> global_depth t"
    and share: "\<And>i j. i < length (dir t) \<Longrightarrow> j < length (dir t) \<Longrightarrow>
        (dir t ! i = dir t ! j) =
        (i mod 2 ^ depth (buckets t ! (dir t ! i)) = j mod 2 ^ depth (buckets t ! (dir t ! i)))"
    unfolding ht_inv_def by blast+
  have D: "?D ! i = (if dir t ! i = ?a then (if bit i d then Suc ?n else ?n) else dir t ! i)"
    if "i < length (dir t)" for i
    using that by (simp add: nth_rewire)
  have B_old: "?B ! x = buckets t ! x" if "x < ?n" for x
    using that by (simp add: nth_append)
  have B_z: "?B ! ?n = zb" and B_o: "?B ! (Suc ?n) = ob"
    by (simp_all add: nth_append)
  have depth': "depth (?B ! (?D ! i)) = (if dir t ! i = ?a then Suc d else depth (buckets t ! (dir t ! i)))"
    if "i < length (dir t)" for i
    using that valid [OF that] by (simp add: D B_old B_z B_o zb ob del: fun_upd_apply)
  have valid': "?D ! i < length ?B" if "i < length (dir t)" for i
    using that valid [OF that] by (simp add: D)
  have dep': "depth (?B ! (?D ! i)) \<le> global_depth t" if "i < length (dir t)" for i
    unfolding depth' [OF that]
    using dep [OF that] lt by simp
  have share': "(?D ! i = ?D ! j) =
      (i mod 2 ^ depth (?B ! (?D ! i)) = j mod 2 ^ depth (?B ! (?D ! i)))"
    if i: "i < length (dir t)" and j: "j < length (dir t)" for i j
  proof (cases "dir t ! i = ?a")
    case ia: True
    then have di: "depth (buckets t ! (dir t ! i)) = d" by (simp add: d)
    show ?thesis
    proof (cases "dir t ! j = ?a")
      case True
      with ia share [OF i j] di have "i mod 2 ^ d = j mod 2 ^ d" by simp
      with ia True i j show ?thesis
        unfolding depth' [OF i]
        by (simp add: D mod_Suc_exp_iff del: power_Suc)
    next
      case False
      with ia share [OF i j] di have "i mod 2 ^ d \<noteq> j mod 2 ^ d" by simp
      then have "i mod 2 ^ Suc d \<noteq> j mod 2 ^ Suc d"
        by (simp add: mod_Suc_exp_iff del: power_Suc)
      with ia False i j valid [OF j] show ?thesis
        unfolding depth' [OF i]
        by (simp add: D del: power_Suc)
    qed
  next
    case ia: False
    show ?thesis
    proof (cases "dir t ! j = ?a")
      case True
      with ia share [OF i j]
      have "i mod 2 ^ depth (buckets t ! (dir t ! i)) \<noteq> j mod 2 ^ depth (buckets t ! (dir t ! i))"
        by simp
      with ia True i j valid [OF i] show ?thesis
        unfolding depth' [OF i]
        by (simp add: D)
    next
      case False
      with ia i j share [OF i j] show ?thesis
        unfolding depth' [OF i]
        by (simp add: D)
    qed
  qed
  have "dir ?t' = ?D" "buckets ?t' = ?B" "global_depth ?t' = global_depth t"
    by simp_all
  then show ?thesis
    unfolding ht_inv_def
    using n valid' dep' share' by (simp only: len) blast
qed


lemma split_step_unfold:
  assumes "idx = IndexOf hash t key" and "a = dir t ! idx" and "b = buckets t ! a"
    and "t1 = (if depth b = global_depth t then grow_dir t else t)"
    and "zo = redistribute hash (2 ^ depth b) (cell b)
               (new_bucket (bucket_size t1) (depth b + 1), new_bucket (bucket_size t1) (depth b + 1))"
  shows "split_step hash key t =
     t1\<lparr>bucket_cnt := bucket_cnt t1 + 1,
        buckets := buckets t1 @ [fst zo, snd zo],
        dir := rewire a (2 ^ depth b) (length (buckets t1)) (Suc (length (buckets t1))) (dir t1)\<rparr>"
  unfolding assms split_step_def Let_def by (simp add: split_beta)

lemma grow_dir_simps:
  "buckets (grow_dir t) = buckets t" "bucket_size (grow_dir t) = bucket_size t"
  "bucket_cnt (grow_dir t) = bucket_cnt t" "global_depth (grow_dir t) = Suc (global_depth t)"
  "dir (grow_dir t) = dir t @ dir t"
  by (simp_all add: grow_dir_def)

lemma ht_inv_split_step:
  assumes inv: "ht_inv t"
  shows "ht_inv (split_step hash key t)"
proof -
  define idx where "idx = IndexOf hash t key"
  define a where "a = dir t ! idx"
  define b where "b = buckets t ! a"
  define t1 where "t1 = (if depth b = global_depth t then grow_dir t else t)"
  define zo where "zo = redistribute hash (2 ^ depth b) (cell b)
               (new_bucket (bucket_size t1) (depth b + 1), new_bucket (bucket_size t1) (depth b + 1))"
  note eq = split_step_unfold [OF idx_def a_def b_def t1_def zo_def]
  from inv have n: "length (dir t) = 2 ^ global_depth t" by (simp add: ht_inv_def)
  then have idx: "idx < length (dir t)" unfolding idx_def by (rule IndexOf_less)
  with inv have le: "depth b \<le> global_depth t"
    by (simp add: ht_inv_def a_def b_def)
  have inv1: "ht_inv t1" using inv by (simp add: t1_def ht_inv_grow)
  have idx1: "idx < length (dir t1)" using idx by (simp add: t1_def grow_dir_simps)
  have a1: "dir t1 ! idx = a" using idx by (simp add: t1_def grow_dir_simps a_def nth_append)
  have b1: "buckets t1 = buckets t" by (simp add: t1_def grow_dir_simps)
  have d1: "depth b = depth (buckets t1 ! (dir t1 ! idx))" by (simp add: a1 b1 b_def)
  have lt: "depth b < global_depth t1" using le by (auto simp: t1_def grow_dir_simps)
  have z: "depth (fst zo) = Suc (depth b)" and o: "depth (snd zo) = Suc (depth b)"
    by (simp_all add: zo_def redistribute_depth new_bucket_def)
  from ht_inv_rewire [OF inv1 idx1 d1 lt z o] show ?thesis
    by (simp add: eq a1)
qed

lemma ht_inv_update_bucket:
  assumes "ht_inv t" and "a < length (buckets t) \<Longrightarrow> depth b' = depth (buckets t ! a)"
  shows "ht_inv (t\<lparr>buckets := (buckets t)[a := b']\<rparr>)"
proof -
  have "depth ((buckets t)[a := b'] ! x) = depth (buckets t ! x)" for x
    using assms(2) by (cases "x = a"; cases "a < length (buckets t)") (simp_all add: list_update_beyond)
  with assms(1) show ?thesis by (simp add: ht_inv_def)
qed

lemma ht_inv_Insert_entry: "ht_inv t \<Longrightarrow> ht_inv (Insert_entry hash key val t)"
  by (simp add: Insert_entry_def Let_def ht_inv_update_bucket Bucket_Insert_depth)

lemma ht_inv_Remove: "ht_inv t \<Longrightarrow> ht_inv (snd (Remove hash key t))"
  by (simp add: Remove_def Let_def split_beta ht_inv_update_bucket Bucket_Remove_def)

lemma ht_inv_new: "ht_inv (new_table n)"
  by (simp add: ht_inv_def new_table_def new_bucket_def)

lemma Insert_loop_rule:
  assumes "Insert_loop hash key t = Some t'" and "Q hash key t"
    and step: "\<And>hash key t. Q hash key t \<Longrightarrow> IsFull (target hash t key) \<Longrightarrow>
                 Q hash key (split_step hash key t)"
  shows "Q hash key t' \<and> \<not> IsFull (target hash t' key)"
proof -
  have "Q hash key t \<longrightarrow> Q hash key t' \<and> \<not> IsFull (target hash t' key)"
  proof (rule Insert_loop.raw_induct
          [where P = "\<lambda>hash key t t'. Q hash key t \<longrightarrow> Q hash key t' \<and> \<not> IsFull (target hash t' key)",
           OF _ assms(1)], goal_cases)
    case (1 f hash key t y)
    show ?case
    proof (cases "IsFull (target hash t key)")
      case True
      with 1(2) have rec: "f hash key (split_step hash key t) = Some y"
        by (simp split: if_splits)
      show ?thesis
      proof
        assume "Q hash key t"
        then have "Q hash key (split_step hash key t)" using True by (rule step)
        with 1(1) [OF rec] show "Q hash key y \<and> \<not> IsFull (target hash y key)" by simp
      qed
    next
      case False
      with 1(2) show ?thesis by simp
    qed
  qed
  with assms(2) show ?thesis by simp
qed

lemma ht_inv_Insert_loop:
  assumes "Insert_loop hash key t = Some t'" and "ht_inv t"
  shows "ht_inv t'"
  using Insert_loop_rule [where Q = "\<lambda>_ _. ht_inv", OF assms] by (simp add: ht_inv_split_step)

lemma ht_inv_Insert:
  assumes "Insert hash key val t = Some t'" and "ht_inv t"
  shows "ht_inv t'"
  using assms by (auto simp: Insert_def intro: ht_inv_Insert_entry ht_inv_Insert_loop)

lemmas ht_eval = Insert_def Insert_entry_def Insert_loop.simps split_step_def rewire_def grow_dir_def
  IndexOf_def target_def Bucket_Insert_def new_bucket_def new_table_def IsFull_def contains_def
  Find_def Bucket_Find_def Remove_def Bucket_Remove_def

lemma full_table_reached:
  "ht_run (\<lambda>k. k) [OpInsert 1 10, OpInsert 2 20] (new_table 2) = Some full_table"
  by (simp add: ht_eval full_table_def)

lemma split_step_full_table:
  "split_step (\<lambda>k. k) 1 full_table = 
     \<lparr>global_depth = 1, bucket_size = 2, bucket_cnt = 2, dir = [1, 2],
      buckets = [\<lparr>size_b = 2, depth = 0, cell = [(1, 10), (2, 20)]\<rparr>,
                 \<lparr>size_b = 2, depth = 1, cell = [(2, 20)]\<rparr>,
                 \<lparr>size_b = 2, depth = 1, cell = [(1, 10)]\<rparr>]\<rparr>"
  by (simp add: ht_eval full_table_def upt_rec)

lemma Insert_full_table:
  "Insert (\<lambda>k. k) 1 30 full_table = Some split_table"
  by (simp add: ht_eval full_table_def split_table_def upt_rec)


lemma ht_inv_apply: "ht_apply hash x t = Some t' \<Longrightarrow> ht_inv t \<Longrightarrow> ht_inv t'"
  by (cases x) (auto intro: ht_inv_Insert ht_inv_Remove)

lemma ht_inv_run: "ht_run hash ops t = Some t' \<Longrightarrow> ht_inv t \<Longrightarrow> ht_inv t'"
proof (induction ops arbitrary: t)
  case Nil
  then show ?case by simp
next
  case (Cons x xs)
  then obtain t1 where "ht_apply hash x t = Some t1" "ht_run hash xs t1 = Some t'"
    by (auto split: option.splits)
  with Cons show ?case by (blast intro: ht_inv_apply)
qed

subsection \<open>The directory invariant\<close>

text \<open>
  Claim C3.  After any sequence of \<open>Insert\<close>, \<open>Remove\<close> and \<open>Find\<close> that returns, started
  on a new table, the bucket referenced by a directory slot \<open>i\<close> has a local depth of
  at most the global depth, and the slots \<open>i\<close> and \<open>j\<close> reference the same bucket iff
  \<open>i\<close> and \<open>j\<close> are congruent modulo \<open>2 ^ local depth\<close> of that bucket.
\<close>

theorem directory_invariant:
  assumes "ht_run hash ops (new_table bsize) = Some t"
    and "i < length (dir t)" and "j < length (dir t)"
  shows "depth (buckets t ! (dir t ! i)) \<le> global_depth t \<and>
         ((dir t ! i = dir t ! j) \<longleftrightarrow>
          (i mod 2 ^ depth (buckets t ! (dir t ! i)) = j mod 2 ^ depth (buckets t ! (dir t ! i))))"
proof -
  from assms(1) have "ht_inv t" by (rule ht_inv_run) (rule ht_inv_new)
  with assms(2,3) show ?thesis unfolding ht_inv_def by blast
qed

lemma probe_table_reached:
  "ht_run (\<lambda>k. k) [OpInsert 1 10, OpInsert 2 20, OpInsert 3 30, OpRemove 2, OpFind 1]
     (new_table 2) = Some probe_table"
  by (simp add: ht_eval probe_table_def upt_rec)

theorem directory_invariant_witness:
  "ht_run (\<lambda>k. k) [OpInsert 1 10, OpInsert 2 20, OpInsert 3 30, OpRemove 2, OpFind 1]
     (new_table 2) = Some probe_table \<and>
   0 < length (dir probe_table) \<and> 1 < length (dir probe_table) \<and>
   depth (buckets probe_table ! (dir probe_table ! 0)) \<le> global_depth probe_table \<and>
   ((dir probe_table ! 0 = dir probe_table ! 1) \<longleftrightarrow>
    ((0::nat) mod 2 ^ depth (buckets probe_table ! (dir probe_table ! 0)) =
     1 mod 2 ^ depth (buckets probe_table ! (dir probe_table ! 0))))"
proof -
  have l: "0 < length (dir probe_table)" "1 < length (dir probe_table)"
    by (simp_all add: probe_table_def)
  from directory_invariant [OF probe_table_reached l] probe_table_reached l
  show ?thesis by simp
qed

subsection \<open>One split\<close>

lemma redistribute_filter:
  assumes "length (cell z) + length (filter (\<lambda>kv. hash (fst kv) AND m = 0) items) \<le> size_b z"
    and "length (cell o') + length (filter (\<lambda>kv. hash (fst kv) AND m \<noteq> 0) items) \<le> size_b o'"
  shows "redistribute hash m items (z, o') =
     (z\<lparr>cell := cell z @ filter (\<lambda>kv. hash (fst kv) AND m = 0) items\<rparr>,
      o'\<lparr>cell := cell o' @ filter (\<lambda>kv. hash (fst kv) AND m \<noteq> 0) items\<rparr>)"
  using assms
proof (induction items arbitrary: z o')
  case Nil
  then show ?case by simp
next
  case (Cons kv items)
  obtain k v where kv: "kv = (k, v)" by (cases kv)
  show ?case
  proof (cases "hash k AND m = 0")
    case True
    with Cons.prems kv have "length (cell z) < size_b z" by simp
    then have ins: "snd (Bucket_Insert k v z) = z\<lparr>cell := cell z @ [(k, v)]\<rparr>"
      by (simp add: Bucket_Insert_def)
    from True kv Cons.prems show ?thesis
      by (simp add: ins Cons.IH)
  next
    case False
    with Cons.prems kv have "length (cell o') < size_b o'" by simp
    then have ins: "snd (Bucket_Insert k v o') = o'\<lparr>cell := cell o' @ [(k, v)]\<rparr>"
      by (simp add: Bucket_Insert_def)
    from False kv Cons.prems show ?thesis
      by (simp add: ins Cons.IH)
  qed
qed


lemma not_bit_mod_exp: "\<not> bit (i mod 2 ^ d) d" for i :: nat
  by (simp add: bit_take_bit_iff flip: take_bit_eq_mod)

lemma bit_mod_exp_plus: "bit (i mod 2 ^ d + 2 ^ d) d" for i :: nat
  by (simp add: bit_iff_odd div_add_self2)

lemma bit_test_pos: "(0 < i AND 2 ^ d) = bit i d" for i :: nat
  using bit_test [of i d] by simp

lemma split_step_dir_nth:
  assumes inv: "ht_inv t" and a: "a = dir t ! IndexOf hash t key"
    and d: "d = depth (buckets t ! a)" and i: "i < length (dir (split_step hash key t))"
  shows "dir (split_step hash key t) ! i =
        (if dir t ! (i mod length (dir t)) = a
         then (if bit i d then length (buckets t) + 1 else length (buckets t))
         else dir t ! (i mod length (dir t)))"
proof -
  define t1 where "t1 = (if depth (buckets t ! a) = global_depth t then grow_dir t else t)"
  note eq = split_step_unfold [OF refl a refl t1_def refl]
  from i have i1: "i < length (dir t1)" by (simp add: eq length_rewire)
  have "dir t1 ! i = dir t ! (i mod length (dir t))"
    using i1 by (auto simp: t1_def grow_dir_simps nth_double)
  with i1 show ?thesis
    by (simp add: eq nth_rewire d t1_def grow_dir_simps)
qed

lemma split_step_shape:
  assumes a: "a = dir t ! IndexOf hash t key" and d: "d = depth (buckets t ! a)"
  shows "global_depth (split_step hash key t) =
           (if d = global_depth t then global_depth t + 1 else global_depth t)"
    and "length (dir (split_step hash key t)) =
           (if d = global_depth t then 2 * length (dir t) else length (dir t))"
    and "bucket_cnt (split_step hash key t) = bucket_cnt t + 1"
    and "bucket_size (split_step hash key t) = bucket_size t"
    and "dir (split_step hash key t) =
           rewire a (2 ^ d) (length (buckets t)) (length (buckets t) + 1)
             (dir (if d = global_depth t then grow_dir t else t))"
  by (simp_all add: split_step_unfold [OF refl a refl refl refl] d grow_dir_simps length_rewire)

lemma split_step_buckets:
  assumes a: "a = dir t ! IndexOf hash t key" and d: "d = depth (buckets t ! a)"
    and cap: "length (cell (buckets t ! a)) \<le> bucket_size t"
  shows "buckets (split_step hash key t) = buckets t @
       [\<lparr>size_b = bucket_size t, depth = d + 1,
          cell = filter (\<lambda>kv. hash (fst kv) AND 2 ^ d = 0) (cell (buckets t ! a))\<rparr>,
        \<lparr>size_b = bucket_size t, depth = d + 1,
          cell = filter (\<lambda>kv. hash (fst kv) AND 2 ^ d \<noteq> 0) (cell (buckets t ! a))\<rparr>]"
proof -
  let ?items = "cell (buckets t ! a)"
  have le: "length (filter P ?items) \<le> bucket_size t" for P
    using le_trans [OF length_filter_le cap] .
  have "redistribute hash (2 ^ d) ?items (new_bucket (bucket_size t) (Suc d), new_bucket (bucket_size t) (Suc d)) =
     (\<lparr>size_b = bucket_size t, depth = Suc d,
          cell = filter (\<lambda>kv. hash (fst kv) AND 2 ^ d = 0) ?items\<rparr>,
      \<lparr>size_b = bucket_size t, depth = Suc d,
          cell = filter (\<lambda>kv. 0 < hash (fst kv) AND 2 ^ d) ?items\<rparr>)"
    by (subst redistribute_filter) (simp_all add: new_bucket_def le)
  note red = this
  define t1 where "t1 = (if depth (buckets t ! a) = global_depth t then grow_dir t else t)"
  have t1: "buckets t1 = buckets t" "bucket_size t1 = bucket_size t"
    by (simp_all add: t1_def grow_dir_simps)
  show ?thesis
    unfolding split_step_unfold [OF refl a refl t1_def refl]
    by (simp add: t1 red [unfolded d] d)
qed


lemma split_step_dir_set:
  assumes inv: "ht_inv t" and a: "a = dir t ! IndexOf hash t key"
    and d: "d = depth (buckets t ! a)"
  shows "set (dir (split_step hash key t)) =
         set (dir t) - {a} \<union> {length (buckets t), length (buckets t) + 1}"
    (is "set ?D' = ?R")
proof -
  let ?idx = "IndexOf hash t key" and ?len = "length (dir t)" and ?n = "length (buckets t)"
  from inv have len: "?len = 2 ^ global_depth t" by (simp add: ht_inv_def)
  then have idx: "?idx < ?len" by (rule IndexOf_less)
  from inv idx have le: "d \<le> global_depth t" and an: "a < ?n"
    by (simp_all add: ht_inv_def a d)
  from inv have share: "\<And>j. j < ?len \<Longrightarrow> (a = dir t ! j) = (?idx mod 2 ^ d = j mod 2 ^ d)"
    using idx unfolding ht_inv_def a d by blast
  note nth = split_step_dir_nth [OF inv a d]
  have len': "length ?D' = (if d = global_depth t then 2 * ?len else ?len)"
    by (rule split_step_shape(2) [OF a d])
  have pos: "0 < ?len" by (simp add: len)
  have modlt: "i mod ?len < ?len" for i using pos by simp
  have "set ?D' \<subseteq> ?R"
  proof
    fix x assume "x \<in> set ?D'"
    then obtain i where i: "i < length ?D'" "x = ?D' ! i" by (auto simp: in_set_conv_nth)
    from nth [OF i(1)] i(2) modlt [of i] show "x \<in> ?R"
      by (auto split: if_splits)
  qed
  moreover have "x \<in> set ?D'" if "x \<in> set (dir t)" "x \<noteq> a" for x
  proof -
    from that obtain i where i: "i < ?len" "x = dir t ! i" by (auto simp: in_set_conv_nth)
    then have i': "i < length ?D'" by (simp add: len')
    from nth [OF i'] i that(2) have "?D' ! i = x" by simp
    with i' show ?thesis by (auto simp: in_set_conv_nth)
  qed
  moreover have "?n \<in> set ?D'"
  proof -
    let ?i = "?idx mod 2 ^ d"
    have "?i < 2 ^ d" by simp
    also have "(2::nat) ^ d \<le> 2 ^ global_depth t" using le by simp
    finally have i: "?i < ?len" by (simp add: len)
    then have i': "?i < length ?D'" by (auto simp: len')
    from share [OF i] have "dir t ! ?i = a" by simp
    with nth [OF i'] i have "?D' ! ?i = ?n"
      by (simp add: not_bit_mod_exp)
    with i' show ?thesis by (metis nth_mem)
  qed
  moreover have "?n + 1 \<in> set ?D'"
  proof -
    let ?i = "?idx mod 2 ^ d + 2 ^ d"
    have lt: "?i < 2 * 2 ^ d"
      using mod_less_divisor [of "2 ^ d" ?idx] by simp
    have i': "?i < length ?D'"
    proof (cases "d = global_depth t")
      case True
      with lt show ?thesis by (simp add: len' len)
    next
      case False
      with le have "Suc d \<le> global_depth t" by simp
      then have "(2::nat) ^ Suc d \<le> 2 ^ global_depth t" by (rule power_increasing) simp
      then have "(2::nat) * 2 ^ d \<le> 2 ^ global_depth t" by simp
      with lt have "?i < 2 ^ global_depth t" by (rule less_le_trans)
      with False show ?thesis by (simp add: len' len)
    qed
    have m: "?i mod ?len < ?len" by (rule modlt)
    have "(?i mod ?len) mod 2 ^ d = ?i mod 2 ^ d"
      using le by (simp add: len mod_mod_exp)
    also have "\<dots> = ?idx mod 2 ^ d" by simp
    finally have "dir t ! (?i mod ?len) = a" using share [OF m] by simp
    with nth [OF i'] have "?D' ! ?i = ?n + 1"
      by (simp add: bit_mod_exp_plus)
    with i' show ?thesis by (metis nth_mem)
  qed
  ultimately show ?thesis by auto
qed


lemma bit_mod_exp: "d < g \<Longrightarrow> bit (h mod 2 ^ g) d = bit h d" for h :: nat
  by (simp add: bit_take_bit_iff flip: take_bit_eq_mod)

lemma target_split_step:
  assumes inv: "ht_inv t" and a: "a = dir t ! IndexOf hash t key"
    and d: "d = depth (buckets t ! a)"
    and cap: "length (cell (buckets t ! a)) \<le> bucket_size t"
  shows "target hash (split_step hash key t) key =
     \<lparr>size_b = bucket_size t, depth = d + 1,
      cell = filter (\<lambda>kv. bit (hash (fst kv)) d = bit (hash key) d) (cell (buckets t ! a))\<rparr>"
proof -
  let ?t' = "split_step hash key t"
  let ?i = "IndexOf hash ?t' key" and ?n = "length (buckets t)"
  note shape = split_step_shape [OF a d]
  from inv have len: "length (dir t) = 2 ^ global_depth t" by (simp add: ht_inv_def)
  then have idx: "IndexOf hash t key < length (dir t)" by (rule IndexOf_less)
  with inv have le: "d \<le> global_depth t" by (simp add: ht_inv_def a d)
  have len': "length (dir ?t') = 2 ^ global_depth ?t'"
    by (simp add: shape(1,2) len)
  then have i: "?i < length (dir ?t')" by (rule IndexOf_less)
  have ge: "global_depth t \<le> global_depth ?t'" and lt: "d < global_depth ?t'"
    using le by (auto simp: shape(1))
  have "?i mod length (dir t) = IndexOf hash t key"
    using ge by (simp add: len IndexOf_mod mod_mod_exp)
  then have old: "dir t ! (?i mod length (dir t)) = a" by (simp add: a)
  have b: "bit ?i d = bit (hash key) d"
    using lt by (simp add: IndexOf_mod bit_mod_exp)
  from split_step_dir_nth [OF inv a d i] old b
  have slot: "dir ?t' ! ?i = (if bit (hash key) d then ?n + 1 else ?n)" by simp
  have eq: "(\<lambda>kv. hash (fst kv) AND 2 ^ d = 0) = (\<lambda>kv. \<not> bit (hash (fst kv)) d)"
    "(\<lambda>kv. hash (fst kv) AND 2 ^ d \<noteq> 0) = (\<lambda>kv. bit (hash (fst kv)) d)"
    by (simp_all add: and_exp_eq_0_iff_not_bit)
  show ?thesis
    unfolding target_def slot split_step_buckets [OF a d cap] eq
    by (simp add: nth_append)
qed

text \<open>
  The capacity of the buckets: every bucket of a table reached from a new one, and of
  every table the loop of \<open>Insert\<close> passes through, has the capacity of the table.
\<close>

lemma capacity_ok_new: "capacity_ok (new_table n)"
  by (simp add: capacity_ok_def new_table_def new_bucket_def)

lemma capacity_ok_split_step:
  assumes "capacity_ok t"
  shows "capacity_ok (split_step hash key t)"
proof -
  define t1 where "t1 = (if depth (buckets t ! (dir t ! IndexOf hash t key)) = global_depth t
                         then grow_dir t else t)"
  define zo where "zo = redistribute hash (2 ^ depth (buckets t ! (dir t ! IndexOf hash t key)))
     (cell (buckets t ! (dir t ! IndexOf hash t key)))
     (new_bucket (bucket_size t1) (depth (buckets t ! (dir t ! IndexOf hash t key)) + 1),
      new_bucket (bucket_size t1) (depth (buckets t ! (dir t ! IndexOf hash t key)) + 1))"
  note eq = split_step_unfold [OF refl refl refl t1_def zo_def]
  have "size_b (fst zo) = bucket_size t1 \<and> size_b (snd zo) = bucket_size t1"
    unfolding zo_def by (simp add: redistribute_size new_bucket_def)
  moreover have "buckets t1 = buckets t" "bucket_size t1 = bucket_size t"
    by (simp_all add: t1_def grow_dir_simps)
  ultimately show ?thesis
    using assms by (auto simp: capacity_ok_def eq)
qed

lemma capacity_ok_update:
  assumes "capacity_ok t" and "size_b b = bucket_size t"
  shows "capacity_ok (t\<lparr>buckets := (buckets t)[a := b]\<rparr>)"
  using assms set_update_subset_insert [of "buckets t" a b]
  by (auto simp: capacity_ok_def)

lemma capacity_ok_nth:
  "capacity_ok t \<Longrightarrow> a < length (buckets t) \<Longrightarrow> size_b (buckets t ! a) = bucket_size t"
  by (simp add: capacity_ok_def)

lemma ht_inv_target:
  assumes "ht_inv t"
  shows "dir t ! IndexOf hash t key < length (buckets t)"
proof -
  from assms have "length (dir t) = 2 ^ global_depth t" by (simp add: ht_inv_def)
  then have "IndexOf hash t key < length (dir t)" by (rule IndexOf_less)
  with assms show ?thesis by (simp add: ht_inv_def)
qed

lemma capacity_ok_target:
  "ht_inv t \<Longrightarrow> capacity_ok t \<Longrightarrow> size_b (target hash t key) = bucket_size t"
  by (simp add: target_def capacity_ok_nth ht_inv_target)

lemma capacity_ok_Insert_entry:
  assumes "ht_inv t" and "capacity_ok t"
  shows "capacity_ok (Insert_entry hash key val t)"
proof -
  let ?b = "buckets t ! (dir t ! IndexOf hash t key)"
  from assms have "size_b ?b = bucket_size t"
    by (simp add: capacity_ok_nth ht_inv_target)
  with assms(2) show ?thesis
    by (simp add: Insert_entry_def Let_def capacity_ok_update Bucket_Insert_size)
qed

lemma capacity_ok_Remove:
  assumes "ht_inv t" and "capacity_ok t"
  shows "capacity_ok (snd (Remove hash key t))"
proof -
  let ?b = "buckets t ! (dir t ! IndexOf hash t key)"
  from assms have "size_b ?b = bucket_size t"
    by (simp add: capacity_ok_nth ht_inv_target)
  with assms(2) show ?thesis
    by (simp add: Remove_def Let_def Bucket_Remove_def capacity_ok_update)
qed

lemma capacity_ok_apply:
  assumes "ht_apply hash x t = Some t'" and "ht_inv t \<and> capacity_ok t"
  shows "ht_inv t' \<and> capacity_ok t'"
proof (cases x)
  case (OpInsert key val)
  with assms(1) obtain t1 where loop: "Insert_loop hash key t = Some t1"
    and t': "t' = Insert_entry hash key val t1"
    by (auto simp: Insert_def)
  from Insert_loop_rule [where Q = "\<lambda>_ _ t. ht_inv t \<and> capacity_ok t", OF loop] assms(2)
  have "ht_inv t1" "capacity_ok t1"
    by (auto simp: ht_inv_split_step capacity_ok_split_step)
  then show ?thesis
    by (simp add: t' ht_inv_Insert_entry capacity_ok_Insert_entry)
next
  case (OpRemove key)
  with assms show ?thesis
    by (auto simp: ht_inv_Remove capacity_ok_Remove)
next
  case (OpFind key)
  with assms show ?thesis by simp
qed

lemma capacity_ok_run:
  assumes "ht_run hash ops (new_table n) = Some t"
  shows "ht_inv t \<and> capacity_ok t"
proof -
  have "ht_inv t' \<and> capacity_ok t'"
    if "ht_run hash ops t0 = Some t'" "ht_inv t0 \<and> capacity_ok t0" for t0 t' :: "('a, 'b) ExtendibleHashTable"
    using that
  proof (induction ops arbitrary: t0)
    case Nil
    then show ?case by simp
  next
    case (Cons x xs)
    then obtain t1 where 1: "ht_apply hash x t0 = Some t1" and 2: "ht_run hash xs t1 = Some t'"
      by (auto split: option.splits)
    from capacity_ok_apply [OF 1 Cons.prems(2)] Cons.IH [OF 2] show ?case by blast
  qed
  from this [OF assms] show ?thesis by (simp add: ht_inv_new capacity_ok_new)
qed

text \<open>
  Claim C5.  An iteration of the loop of \<open>Insert\<close>: the call is in a state \<open>t\<close> that
  satisfies the directory invariant, and the target bucket of the key, stored at the
  address \<open>a\<close> with local depth \<open>d\<close>, has the capacity of the table and is full (the
  directory can still be doubled: a global depth of 31 is beyond what \<^verbatim>\<open>1 << global_depth_\<close>
  computes in \<^verbatim>\<open>int\<close>).  Then \<open>Insert\<close> goes on from the table \<open>t'\<close> the iteration builds,
  which again satisfies the invariant and has a target bucket of the capacity of the table,
  so that the statement applies to the next iteration.  If \<open>d\<close> is the global depth, the
  directory is first doubled (\<open>t1\<close>): the global depth grows by one and slot
  \<open>i + old length\<close> references what slot \<open>i\<close> references.  Then the bucket count grows
  by exactly one; two buckets of local depth \<open>d + 1\<close> are allocated at the addresses
  \<open>n\<close> and \<open>n + 1\<close>, holding the entries of the old bucket whose hash has bit \<open>2 ^ d\<close>
  clear, respectively set; every bucket already in the store is unchanged; a slot that
  referenced the old bucket references the new bucket chosen by bit \<open>2 ^ d\<close> of its
  index, every other slot keeps its reference; and the set of referenced buckets loses
  \<open>a\<close> and gains \<open>n\<close> and \<open>n + 1\<close>.  The two hypotheses on \<open>t\<close> hold in every table
  reached from a new one (\<open>capacity_ok_run\<close>, \<open>capacity_ok_target\<close>).
\<close>

theorem Insert_split_iteration:
  assumes inv: "ht_inv t"
    and cap: "size_b (target hash t key) = bucket_size t"
    and full: "IsFull (target hash t key)"
    and a: "a = dir t ! IndexOf hash t key"
    and d: "d = depth (buckets t ! a)"
    and room: "\<not> (d = global_depth t \<and> 30 \<le> global_depth t)"
    and n: "n = length (buckets t)"
    and t1: "t1 = (if d = global_depth t then grow_dir t else t)"
    and t': "t' = split_step hash key t"
  shows "Insert_loop hash key t = Insert_loop hash key t' \<and>
         Insert hash key val t = Insert hash key val t' \<and>
         ht_inv t' \<and> size_b (target hash t' key) = bucket_size t' \<and>
         (d = global_depth t \<longrightarrow>
            global_depth t1 = global_depth t + 1 \<and> length (dir t1) = 2 * length (dir t) \<and>
            (\<forall>i < length (dir t). dir t1 ! i = dir t ! i \<and> dir t1 ! (i + length (dir t)) = dir t1 ! i)) \<and>
         global_depth t' = global_depth t1 \<and> length (dir t') = length (dir t1) \<and>
         bucket_cnt t' = bucket_cnt t + 1 \<and>
         buckets t' = buckets t @
           [\<lparr>size_b = bucket_size t, depth = d + 1,
              cell = filter (\<lambda>kv. hash (fst kv) AND 2 ^ d = 0) (cell (buckets t ! a))\<rparr>,
            \<lparr>size_b = bucket_size t, depth = d + 1,
              cell = filter (\<lambda>kv. hash (fst kv) AND 2 ^ d \<noteq> 0) (cell (buckets t ! a))\<rparr>] \<and>
         (\<forall>x < n. buckets t' ! x = buckets t ! x) \<and>
         (\<forall>i < length (dir t'). dir t' ! i =
            (if dir t1 ! i = a then (if i AND 2 ^ d \<noteq> 0 then n + 1 else n) else dir t1 ! i)) \<and>
         set (dir t') = set (dir t) - {a} \<union> {n, n + 1}"
proof -
  from cap full have c: "length (cell (buckets t ! a)) \<le> bucket_size t"
    by (simp add: IsFull_def target_def a)
  note shape = split_step_shape [OF a d]
  note bs = split_step_buckets [OF a d c]
  from room have "\<not> (depth (target hash t key) = global_depth t \<and> 30 \<le> global_depth t)"
    by (simp add: target_def a d)
  with full have loop: "Insert_loop hash key t = Insert_loop hash key t'"
    by (subst Insert_loop.simps) (auto simp: t')
  then have ins: "Insert hash key val t = Insert hash key val t'"
    by (simp add: Insert_def)
  from inv have inv': "ht_inv t'" by (simp add: t' ht_inv_split_step)
  have cap': "size_b (target hash t' key) = bucket_size t'"
    by (simp add: t' target_split_step [OF inv a d c] shape(4))
  have grow: "global_depth t1 = global_depth t + 1 \<and> length (dir t1) = 2 * length (dir t) \<and>
      (\<forall>i < length (dir t). dir t1 ! i = dir t ! i \<and> dir t1 ! (i + length (dir t)) = dir t1 ! i)"
    if "d = global_depth t"
    using that by (simp add: t1 grow_dir_simps nth_append)
  have gd: "global_depth t' = global_depth t1" and len: "length (dir t') = length (dir t1)"
    by (simp_all add: t' t1 shape(1,2) grow_dir_simps)
  have old: "\<forall>x < n. buckets t' ! x = buckets t ! x"
    by (simp add: t' bs n nth_append)
  have nth: "dir t' ! i = (if dir t1 ! i = a then (if i AND 2 ^ d \<noteq> 0 then n + 1 else n) else dir t1 ! i)"
    if "i < length (dir t')" for i
  proof -
    from that have "i < length (dir t1)" by (simp add: len)
    then show ?thesis
      unfolding t' shape(5) t1 [symmetric] n
      by (simp add: nth_rewire bit_test_pos)
  qed
  have rest: "(d = global_depth t \<longrightarrow>
            global_depth t1 = global_depth t + 1 \<and> length (dir t1) = 2 * length (dir t) \<and>
            (\<forall>i < length (dir t). dir t1 ! i = dir t ! i \<and> dir t1 ! (i + length (dir t)) = dir t1 ! i)) \<and>
         global_depth t' = global_depth t1 \<and> length (dir t') = length (dir t1) \<and>
         bucket_cnt t' = bucket_cnt t + 1 \<and>
         buckets t' = buckets t @
           [\<lparr>size_b = bucket_size t, depth = d + 1,
              cell = filter (\<lambda>kv. hash (fst kv) AND 2 ^ d = 0) (cell (buckets t ! a))\<rparr>,
            \<lparr>size_b = bucket_size t, depth = d + 1,
              cell = filter (\<lambda>kv. hash (fst kv) AND 2 ^ d \<noteq> 0) (cell (buckets t ! a))\<rparr>] \<and>
         (\<forall>x < n. buckets t' ! x = buckets t ! x) \<and>
         (\<forall>i < length (dir t'). dir t' ! i =
            (if dir t1 ! i = a then (if i AND 2 ^ d \<noteq> 0 then n + 1 else n) else dir t1 ! i)) \<and>
         set (dir t') = set (dir t) - {a} \<union> {n, n + 1}"
    using grow gd len old nth shape(3) bs split_step_dir_set [OF inv a d]
    by (simp add: t' n)
  from loop ins inv' cap' rest show ?thesis by blast
qed

theorem Insert_split_iteration_witness:
  "ht_run (\<lambda>k. k) [OpInsert 1 10, OpInsert 2 20] (new_table 2) = Some full_table \<and>
   ht_inv full_table \<and>
   size_b (target (\<lambda>k. k) full_table 3) = bucket_size full_table \<and>
   IsFull (target (\<lambda>k. k) full_table 3) \<and>
   depth (buckets full_table ! (dir full_table ! IndexOf (\<lambda>k. k) full_table 3)) = 0 \<and>
   global_depth full_table = 0 \<and>
   Insert (\<lambda>k. k) 3 30 full_table = Insert (\<lambda>k. k) 3 30 (split_step (\<lambda>k. k) 3 full_table) \<and>
   Insert (\<lambda>k. k) 3 30 full_table =
     Some \<lparr>global_depth = 1, bucket_size = 2, bucket_cnt = 2, dir = [1, 2],
        buckets = [\<lparr>size_b = 2, depth = 0, cell = [(1, 10), (2, 20)]\<rparr>,
                   \<lparr>size_b = 2, depth = 1, cell = [(2, 20)]\<rparr>,
                   \<lparr>size_b = 2, depth = 1, cell = [(1, 10), (3, 30)]\<rparr>]\<rparr> \<and>
   global_depth (grow_dir full_table) = 1 \<and> dir (grow_dir full_table) = [0, 0] \<and>
   global_depth (split_step (\<lambda>k. k) 3 full_table) = 1 \<and>
   bucket_cnt (split_step (\<lambda>k. k) 3 full_table) = 2 \<and>
   buckets (split_step (\<lambda>k. k) 3 full_table) =
     [\<lparr>size_b = 2, depth = 0, cell = [(1, 10), (2, 20)]\<rparr>,
      \<lparr>size_b = 2, depth = 1, cell = [(2, 20)]\<rparr>,
      \<lparr>size_b = 2, depth = 1, cell = [(1, 10)]\<rparr>] \<and>
   set (dir (split_step (\<lambda>k. k) 3 full_table)) = {1, 2}"
proof -
  note reached = capacity_ok_run [OF full_table_reached]
  from reached have inv: "ht_inv full_table" ..
  from reached have h: "size_b (target (\<lambda>k. k) full_table 3) = bucket_size full_table"
    by (simp add: capacity_ok_target)
  have f: "IsFull (target (\<lambda>k. k) full_table 3)"
    by (simp add: target_def IndexOf_def IsFull_def full_table_def)
  have r: "\<not> (depth (buckets full_table ! (dir full_table ! IndexOf (\<lambda>k. k) full_table 3)) =
              global_depth full_table \<and> 30 \<le> global_depth full_table)"
    by (simp add: full_table_def)
  have i: "Insert (\<lambda>k. k) 3 30 full_table =
     Some \<lparr>global_depth = 1, bucket_size = 2, bucket_cnt = 2, dir = [1, 2],
        buckets = [\<lparr>size_b = 2, depth = 0, cell = [(1, 10), (2, 20)]\<rparr>,
                   \<lparr>size_b = 2, depth = 1, cell = [(2, 20)]\<rparr>,
                   \<lparr>size_b = 2, depth = 1, cell = [(1, 10), (3, 30)]\<rparr>]\<rparr>"
    by (simp add: ht_eval full_table_def upt_rec)
  from Insert_split_iteration [OF inv h f refl refl r refl refl refl, of 30]
    full_table_reached inv h f i
  show ?thesis
    by (simp add: full_table_def IndexOf_def grow_dir_def flip: numeral_2_eq_2)
qed

subsection \<open>Inserting a key that is present\<close>

lemma Insert_loop_not_full:
  "\<not> IsFull (target hash t key) \<Longrightarrow> Insert_loop hash key t = Some t"
  by (simp add: Insert_loop.simps)

lemma map_of_overwrite:
  "contains kvs key \<Longrightarrow> map_of (overwrite key val kvs) = (map_of kvs)(key \<mapsto> val)"
  by (induction kvs) (auto simp: contains_def)

lemma Insert_present_not_full:
  assumes "\<not> IsFull (target hash t key)" and "contains (cell (target hash t key)) key"
    and "dir t ! IndexOf hash t key < length (buckets t)"
  shows "\<exists>t'. Insert hash key val t = Some t' \<and> Find hash key t' = Some val \<and>
           dir t' = dir t \<and> global_depth t' = global_depth t \<and> bucket_cnt t' = bucket_cnt t"
  using assms
  by (simp add: Insert_def Insert_loop_not_full Insert_entry_def Let_def Find_def
      Bucket_Find_def target_def IndexOf_def map_of_overwrite)

subsection \<open>Well-formed tables\<close>

lemma redistribute_parts:
  assumes "distinct (map fst items)"
  shows "\<exists>ys zs. cell (fst (redistribute hash m items (z, o'))) = cell z @ ys \<and>
           cell (snd (redistribute hash m items (z, o'))) = cell o' @ zs \<and>
           set ys \<subseteq> set items \<and> set zs \<subseteq> set items \<and>
           distinct (map fst ys) \<and> distinct (map fst zs)"
  using assms
proof (induction items arbitrary: z o')
  case Nil
  then show ?case by simp
next
  case (Cons kv items)
  obtain k v where kv: "kv = (k, v)" by (cases kv)
  from Cons.prems kv have d: "distinct (map fst items)" and nk: "k \<notin> fst ` set items" by auto
  show ?case
  proof (cases "hash k AND m \<noteq> 0")
    case True
    let ?o = "snd (Bucket_Insert k v o')"
    from Cons.IH [OF d, of z ?o] obtain ys zs where
      r: "cell (fst (redistribute hash m items (z, ?o))) = cell z @ ys"
         "cell (snd (redistribute hash m items (z, ?o))) = cell ?o @ zs"
         "set ys \<subseteq> set items" "set zs \<subseteq> set items"
         "distinct (map fst ys)" "distinct (map fst zs)"
      by blast
    have "cell ?o = cell o' \<or> cell ?o = cell o' @ [(k, v)]"
      by (simp add: Bucket_Insert_def)
    then show ?thesis
    proof
      assume "cell ?o = cell o'"
      with r True kv show ?thesis by auto
    next
      assume c: "cell ?o = cell o' @ [(k, v)]"
      from r nk have "distinct (map fst ((k, v) # zs))" by auto
      with r c True kv show ?thesis
        by (intro exI [of _ ys] exI [of _ "(k, v) # zs"]) auto
    qed
  next
    case False
    let ?z = "snd (Bucket_Insert k v z)"
    from Cons.IH [OF d, of ?z o'] obtain ys zs where
      r: "cell (fst (redistribute hash m items (?z, o'))) = cell ?z @ ys"
         "cell (snd (redistribute hash m items (?z, o'))) = cell o' @ zs"
         "set ys \<subseteq> set items" "set zs \<subseteq> set items"
         "distinct (map fst ys)" "distinct (map fst zs)"
      by blast
    have "cell ?z = cell z \<or> cell ?z = cell z @ [(k, v)]"
      by (simp add: Bucket_Insert_def)
    then show ?thesis
    proof
      assume "cell ?z = cell z"
      with r False kv show ?thesis by auto
    next
      assume c: "cell ?z = cell z @ [(k, v)]"
      from r nk have "distinct (map fst ((k, v) # ys))" by auto
      with r c False kv show ?thesis
        by (intro exI [of _ "(k, v) # ys"] exI [of _ zs]) auto
    qed
  qed
qed

lemma redistribute_bucket_ok:
  assumes "bucket_ok V b"
  shows "bucket_ok V (fst (redistribute hash m (cell b) (new_bucket n d, new_bucket n d)))"
    and "bucket_ok V (snd (redistribute hash m (cell b) (new_bucket n d, new_bucket n d)))"
proof -
  from assms have "distinct (map fst (cell b))" by (simp add: bucket_ok_def)
  from redistribute_parts [OF this, of hash m "new_bucket n d" "new_bucket n d"]
  obtain ys zs where
    "cell (fst (redistribute hash m (cell b) (new_bucket n d, new_bucket n d))) = ys"
    "cell (snd (redistribute hash m (cell b) (new_bucket n d, new_bucket n d))) = zs"
    "set ys \<subseteq> set (cell b)" "set zs \<subseteq> set (cell b)"
    "distinct (map fst ys)" "distinct (map fst zs)"
    by (auto simp: new_bucket_def)
  with assms show
    "bucket_ok V (fst (redistribute hash m (cell b) (new_bucket n d, new_bucket n d)))"
    "bucket_ok V (snd (redistribute hash m (cell b) (new_bucket n d, new_bucket n d)))"
    by (auto simp: bucket_ok_def)
qed

lemma table_ok_target:
  assumes "table_ok V t"
  shows "dir t ! IndexOf hash t key < length (buckets t)"
    and "target hash t key \<in> set (buckets t)"
    and "bucket_ok V (target hash t key)"
proof -
  from assms have "length (dir t) = 2 ^ global_depth t" by (simp add: table_ok_def)
  then have "IndexOf hash t key < length (dir t)" by (rule IndexOf_less)
  then have "dir t ! IndexOf hash t key \<in> set (dir t)" by simp
  with assms show a: "dir t ! IndexOf hash t key < length (buckets t)"
    by (simp add: table_ok_def)
  then show "target hash t key \<in> set (buckets t)" by (simp add: target_def)
  with assms show "bucket_ok V (target hash t key)" by (simp add: table_ok_def)
qed

lemma table_ok_new: "table_ok V (new_table n)"
  by (simp add: table_ok_def new_table_def new_bucket_def bucket_ok_def)

lemma set_rewire:
  "set (rewire a m z o' d) \<subseteq> set d \<union> {z, o'}"
  by (auto simp: rewire_def)

lemma table_ok_split_step:
  assumes "table_ok V t"
  shows "table_ok V (split_step hash key t)"
proof -
  define a where "a = dir t ! IndexOf hash t key"
  define d where "d = depth (buckets t ! a)"
  define t1 where "t1 = (if depth (buckets t ! a) = global_depth t then grow_dir t else t)"
  define zo where "zo = redistribute hash (2 ^ depth (buckets t ! a)) (cell (buckets t ! a))
     (new_bucket (bucket_size t1) (depth (buckets t ! a) + 1),
      new_bucket (bucket_size t1) (depth (buckets t ! a) + 1))"
  note eq = split_step_unfold [OF refl a_def refl t1_def zo_def]
  note tg = table_ok_target [OF assms, of hash key]
  have b: "bucket_ok V (buckets t ! a)" using tg(3) by (simp add: target_def a_def)
  have zo: "bucket_ok V (fst zo)" "bucket_ok V (snd zo)"
    unfolding zo_def by (rule redistribute_bucket_ok [OF b])+
  have t1: "buckets t1 = buckets t" "length (dir t1) = 2 ^ global_depth t1"
    "set (dir t1) = set (dir t)"
    using assms by (auto simp: t1_def grow_dir_simps table_ok_def)
  have "set (dir (split_step hash key t)) \<subseteq>
        set (dir t) \<union> {length (buckets t), Suc (length (buckets t))}"
    using set_rewire [of a "2 ^ depth (buckets t ! a)" "length (buckets t)"
        "Suc (length (buckets t))" "dir t1"]
    by (simp add: eq t1)
  moreover have "a' < length (buckets t)" if "a' \<in> set (dir t)" for a'
    using assms that by (simp add: table_ok_def)
  ultimately have valid: "\<forall>a' \<in> set (dir (split_step hash key t)). a' < length (buckets t) + 2"
    by fastforce
  from assms zo t1 valid show ?thesis
    by (auto simp: table_ok_def eq length_rewire)
qed

lemma table_ok_Insert_loop:
  assumes "Insert_loop hash key t = Some t'" and "table_ok V t"
  shows "table_ok V t'"
  using Insert_loop_rule [where Q = "\<lambda>_ _. table_ok V", OF assms]
  by (simp add: table_ok_split_step)

lemma table_ok_update_bucket:
  assumes "table_ok V t" and "bucket_ok V b"
  shows "table_ok V (t\<lparr>buckets := (buckets t)[a := b]\<rparr>)"
  using assms set_update_subset_insert [of "buckets t" a b]
  by (auto simp: table_ok_def)

lemma overwrite_fst: "map fst (overwrite key val kvs) = map fst kvs"
  by (induction kvs) auto

lemma set_overwrite: "set (overwrite key val kvs) \<subseteq> insert (key, val) (set kvs)"
  by (induction kvs) auto

lemma set_erase_first: "set (erase_first key kvs) \<subseteq> set kvs"
  by (induction kvs) auto

lemma distinct_erase_first: "distinct (map fst kvs) \<Longrightarrow> distinct (map fst (erase_first key kvs))"
proof (induction kvs)
  case Nil
  then show ?case by simp
next
  case (Cons kv kvs)
  have "fst ` set (erase_first key kvs) \<subseteq> fst ` set kvs"
    using set_erase_first [of key kvs] by blast
  with Cons show ?case by auto
qed


lemma table_ok_Insert_entry:
  assumes "table_ok V t" and "V val"
  shows "table_ok V (Insert_entry hash key val t)"
proof -
  let ?b = "buckets t ! (dir t ! IndexOf hash t key)"
  have b: "bucket_ok V ?b"
    using table_ok_target(3) [OF assms(1), of hash key] by (simp add: target_def)
  have 1: "bucket_ok V (?b\<lparr>cell := overwrite key val (cell ?b)\<rparr>)"
    using b assms(2) set_overwrite [of key val "cell ?b"]
    by (auto simp: bucket_ok_def overwrite_fst)
  have 2: "bucket_ok V (snd (Bucket_Insert key val ?b))" if "\<not> contains (cell ?b) key"
    using b assms(2) that
    by (auto simp: bucket_ok_def Bucket_Insert_def contains_iff)
  from 1 2 show ?thesis
    by (simp add: Insert_entry_def Let_def table_ok_update_bucket [OF assms(1)])
qed

lemma table_ok_Insert:
  assumes "Insert hash key val t = Some t'" and "table_ok V t" and "V val"
  shows "table_ok V t'"
  using assms by (auto simp: Insert_def intro: table_ok_Insert_entry table_ok_Insert_loop)

lemma table_ok_Remove:
  assumes "table_ok V t"
  shows "table_ok V (snd (Remove hash key t))"
proof -
  let ?b = "buckets t ! (dir t ! IndexOf hash t key)"
  have b: "bucket_ok V ?b"
    using table_ok_target(3) [OF assms, of hash key] by (simp add: target_def)
  have "bucket_ok V (?b\<lparr>cell := erase_first key (cell ?b)\<rparr>)"
    using b set_erase_first [of key "cell ?b"]
    by (auto simp: bucket_ok_def distinct_erase_first)
  then show ?thesis
    by (simp add: Remove_def Let_def Bucket_Remove_def table_ok_update_bucket [OF assms])
qed

lemma Find_table_ok:
  assumes "table_ok V t" and "Find hash key t = Some v"
  shows "V v"
proof -
  from assms(2) have "(key, v) \<in> set (cell (target hash t key))"
    by (auto simp: Find_def Bucket_Find_def dest: map_of_SomeD)
  with table_ok_target(3) [OF assms(1), of hash key] show ?thesis
    by (auto simp: bucket_ok_def)
qed

lemma Remove_simps:
  "dir (snd (Remove hash key t)) = dir t"
  "global_depth (snd (Remove hash key t)) = global_depth t"
  "bucket_cnt (snd (Remove hash key t)) = bucket_cnt t"
  "fst (Remove hash key t) = (Find hash key t \<noteq> None)"
  by (simp_all add: Remove_def Let_def Bucket_Remove_def Find_def Bucket_Find_def target_def
      contains_def)


subsection \<open>What Insert stores, and when it does not return\<close>

lemma Bucket_Insert_capacity:
  "length (cell b) \<le> size_b b \<Longrightarrow>
   length (cell (snd (Bucket_Insert k v b))) \<le> size_b (snd (Bucket_Insert k v b))"
  by (simp add: Bucket_Insert_def)

lemma redistribute_capacity:
  assumes "length (cell z) \<le> size_b z" and "length (cell o') \<le> size_b o'"
  shows "length (cell (fst (redistribute hash m items (z, o')))) \<le>
           size_b (fst (redistribute hash m items (z, o'))) \<and>
         length (cell (snd (redistribute hash m items (z, o')))) \<le>
           size_b (snd (redistribute hash m items (z, o')))"
  using assms
  by (induction items arbitrary: z o') (auto simp: Bucket_Insert_capacity)

lemma within_capacity_split_step:
  assumes "within_capacity t"
  shows "within_capacity (split_step hash key t)"
proof -
  define t1 where "t1 = (if depth (buckets t ! (dir t ! IndexOf hash t key)) = global_depth t
                         then grow_dir t else t)"
  define zo where "zo = redistribute hash (2 ^ depth (buckets t ! (dir t ! IndexOf hash t key)))
     (cell (buckets t ! (dir t ! IndexOf hash t key)))
     (new_bucket (bucket_size t1) (depth (buckets t ! (dir t ! IndexOf hash t key)) + 1),
      new_bucket (bucket_size t1) (depth (buckets t ! (dir t ! IndexOf hash t key)) + 1))"
  note eq = split_step_unfold [OF refl refl refl t1_def zo_def]
  have "length (cell (fst zo)) \<le> size_b (fst zo) \<and> length (cell (snd zo)) \<le> size_b (snd zo)"
    unfolding zo_def by (rule redistribute_capacity) (simp_all add: new_bucket_def)
  moreover have "buckets t1 = buckets t" by (simp add: t1_def grow_dir_simps)
  ultimately show ?thesis
    using assms by (auto simp: within_capacity_def eq)
qed

lemma within_capacity_update:
  assumes "within_capacity t" and "length (cell b) \<le> size_b b"
  shows "within_capacity (t\<lparr>buckets := (buckets t)[a := b]\<rparr>)"
  using assms set_update_subset_insert [of "buckets t" a b]
  by (auto simp: within_capacity_def)

lemma length_overwrite: "length (overwrite key val kvs) = length kvs"
  by (induction kvs) auto

lemma length_erase_first: "length (erase_first key kvs) \<le> length kvs"
  by (induction kvs) auto

lemma within_capacity_nth:
  "within_capacity t \<Longrightarrow> a < length (buckets t) \<Longrightarrow> length (cell (buckets t ! a)) \<le> size_b (buckets t ! a)"
  by (simp add: within_capacity_def)

lemma Find_Insert:
  assumes tok: "table_ok V t" and cap: "within_capacity t"
    and ins: "Insert hash key val t = Some t'"
  shows "Find hash key t' = Some val"
proof -
  from ins obtain t1 where loop: "Insert_loop hash key t = Some t1"
    and t': "t' = Insert_entry hash key val t1"
    by (auto simp: Insert_def)
  from Insert_loop_rule [where Q = "\<lambda>_ _ t. table_ok V t \<and> within_capacity t", OF loop]
    tok cap
  have tok1: "table_ok V t1" and cap1: "within_capacity t1"
    and nf: "\<not> IsFull (target hash t1 key)"
    by (auto simp: table_ok_split_step within_capacity_split_step)
  let ?a = "dir t1 ! IndexOf hash t1 key"
  let ?b = "buckets t1 ! ?a"
  note a = table_ok_target(1) [OF tok1, of hash key]
  from within_capacity_nth [OF cap1 a] nf have room: "length (cell ?b) < size_b ?b"
    by (simp add: IsFull_def target_def)
  show ?thesis
  proof (cases "contains (cell ?b) key")
    case True
    with a show ?thesis
      by (simp add: t' Insert_entry_def Let_def Find_def Bucket_Find_def target_def IndexOf_def
          map_of_overwrite)
  next
    case False
    then have "map_of (cell ?b) key = None" by (simp add: contains_def)
    with a room False show ?thesis
      by (simp add: t' Insert_entry_def Let_def Find_def Bucket_Find_def target_def IndexOf_def
          Bucket_Insert_def map_add_Some_iff)
  qed
qed

lemma within_capacity_Insert_entry:
  assumes "within_capacity t" and "dir t ! IndexOf hash t key < length (buckets t)"
  shows "within_capacity (Insert_entry hash key val t)"
proof -
  let ?b = "buckets t ! (dir t ! IndexOf hash t key)"
  from assms have b: "length (cell ?b) \<le> size_b ?b" by (rule within_capacity_nth)
  then have "length (cell (?b\<lparr>cell := overwrite key val (cell ?b)\<rparr>)) \<le>
             size_b (?b\<lparr>cell := overwrite key val (cell ?b)\<rparr>)"
    by (simp add: length_overwrite)
  with b show ?thesis
    by (simp add: Insert_entry_def Let_def within_capacity_update [OF assms(1)]
        Bucket_Insert_capacity)
qed

lemma within_capacity_Remove:
  assumes "within_capacity t" and "dir t ! IndexOf hash t key < length (buckets t)"
  shows "within_capacity (snd (Remove hash key t))"
proof -
  let ?b = "buckets t ! (dir t ! IndexOf hash t key)"
  from assms have "length (cell ?b) \<le> size_b ?b" by (rule within_capacity_nth)
  with length_erase_first [of key "cell ?b"]
  have "length (cell (?b\<lparr>cell := erase_first key (cell ?b)\<rparr>)) \<le>
        size_b (?b\<lparr>cell := erase_first key (cell ?b)\<rparr>)"
    by simp
  then show ?thesis
    by (simp add: Remove_def Let_def Bucket_Remove_def within_capacity_update [OF assms(1)])
qed

lemma table_capacity_apply:
  assumes "ht_apply hash x t = Some t'" and "table_ok V t \<and> within_capacity t"
    and "\<And>v. V v"
  shows "table_ok V t' \<and> within_capacity t'"
proof (cases x)
  case (OpInsert key val)
  with assms(1) obtain t1 where loop: "Insert_loop hash key t = Some t1"
    and t': "t' = Insert_entry hash key val t1"
    by (auto simp: Insert_def)
  from Insert_loop_rule [where Q = "\<lambda>_ _ t. table_ok V t \<and> within_capacity t", OF loop]
    assms(2)
  have "table_ok V t1" "within_capacity t1"
    by (auto simp: table_ok_split_step within_capacity_split_step)
  with assms(3) show ?thesis
    by (simp add: t' table_ok_Insert_entry within_capacity_Insert_entry table_ok_target(1))
next
  case (OpRemove key)
  with assms show ?thesis
    by (auto simp: table_ok_Remove within_capacity_Remove table_ok_target(1))
next
  case (OpFind key)
  with assms show ?thesis by simp
qed

lemma table_capacity_run:
  assumes "ht_run hash ops t = Some t'" and "table_ok (\<lambda>_. True) t \<and> within_capacity t"
  shows "table_ok (\<lambda>_. True) t' \<and> within_capacity t'"
  using assms
proof (induction ops arbitrary: t)
  case Nil
  then show ?case by simp
next
  case (Cons x xs)
  then obtain t1 where 1: "ht_apply hash x t = Some t1" and 2: "ht_run hash xs t1 = Some t'"
    by (auto split: option.splits)
  from table_capacity_apply [OF 1 Cons.prems(2)] have "table_ok (\<lambda>_. True) t1 \<and> within_capacity t1"
    by simp
  with Cons.IH [OF 2] show ?case .
qed

lemma Find_Insert_run:
  assumes "ht_run hash ops (new_table n) = Some t" and "Insert hash key val t = Some t'"
  shows "Find hash key t' = Some val"
proof -
  have "table_ok (\<lambda>_. True) (new_table n :: ('a, 'b) ExtendibleHashTable) \<and>
        within_capacity (new_table n :: ('a, 'b) ExtendibleHashTable)"
    by (rule conjI [OF table_ok_new]) (simp add: within_capacity_def new_table_def new_bucket_def)
  from table_capacity_run [OF assms(1) this] assms(2) show ?thesis
    by (auto intro: Find_Insert)
qed

lemma Insert_loop_single_full:
  assumes inv: "ht_inv t" and bs: "bucket_size t = 1"
    and tg: "cell (target hash t key) = [(key, v)]" and sz: "size_b (target hash t key) = 1"
  shows "Insert_loop hash key t = None"
proof (rule ccontr)
  assume "Insert_loop hash key t \<noteq> None"
  then obtain t' where loop: "Insert_loop hash key t = Some t'" by auto
  let ?Q = "\<lambda>hash key t. ht_inv t \<and> bucket_size t = 1 \<and>
              cell (target hash t key) = [(key, v)] \<and> size_b (target hash t key) = 1"
  have step: "?Q hash key (split_step hash key t)" if q: "?Q hash key t" for hash key t
  proof -
    from q have cap: "length (cell (buckets t ! (dir t ! IndexOf hash t key))) \<le> bucket_size t"
      by (simp add: target_def)
    from q target_split_step [OF _ refl refl cap]
    have "target hash (split_step hash key t) key =
       \<lparr>size_b = 1, depth = depth (buckets t ! (dir t ! IndexOf hash t key)) + 1,
        cell = [(key, v)]\<rparr>"
      by (simp add: target_def)
    with q show ?thesis
      by (simp add: ht_inv_split_step split_step_shape(4) [OF refl refl])
  qed
  have "?Q hash key t' \<and> \<not> IsFull (target hash t' key)"
  proof (rule Insert_loop_rule [where Q = ?Q, OF loop])
    from inv bs tg sz show "?Q hash key t" by simp
    show "?Q h k u \<Longrightarrow> IsFull (target h u k) \<Longrightarrow> ?Q h k (split_step h k u)" for h k u
      by (rule step)
  qed
  then show False by (auto simp: IsFull_def)
qed

lemma Insert_present_capacity_one:
  "Insert (\<lambda>k. k) 1 10 (new_table 1) =
     Some \<lparr>global_depth = 0, bucket_size = 1, bucket_cnt = 1, dir = [0],
            buckets = [\<lparr>size_b = 1, depth = 0, cell = [(1, 10)]\<rparr>]\<rparr> \<and>
   Insert (\<lambda>k. k) (1::nat) (30::nat)
     \<lparr>global_depth = 0, bucket_size = 1, bucket_cnt = 1, dir = [0],
      buckets = [\<lparr>size_b = 1, depth = 0, cell = [(1, 10)]\<rparr>]\<rparr> = None"
proof -
  have "Insert_loop (\<lambda>k. k) (1::nat)
     \<lparr>global_depth = 0, bucket_size = 1, bucket_cnt = 1, dir = [0],
      buckets = [\<lparr>size_b = 1, depth = 0, cell = [(1, 10::nat)]\<rparr>]\<rparr> = None"
    by (rule Insert_loop_single_full [where v = 10])
       (simp_all add: ht_inv_def target_def IndexOf_def)
  then show ?thesis
    by (simp add: Insert_def) (simp add: ht_eval)
qed

text \<open>
  Claim C4.  \<open>Insert\<close> of a key that is present is to overwrite the value and leave the
  structure of the table alone.  The source runs the loop that splits a full target
  bucket before it looks for the key: in \<open>full_table\<close>, reached by inserting the keys 1
  and 2 into a new table with buckets of capacity 2, the key 1 is present, and inserting
  it again doubles the directory, raises the global depth from 0 to 1 and the number of
  buckets from 1 to 2.  (\<open>Find\<close> does yield the new value afterwards, \<open>Find_Insert_run\<close>;
  with buckets of capacity 1 the same call splits until the directory cannot be doubled any
  more and has no defined result, \<open>Insert_present_capacity_one\<close>.)
\<close>

theorem Insert_present_key_splits:
  "ht_run (\<lambda>k. k) [OpInsert 1 10, OpInsert 2 20] (new_table 2) = Some full_table \<and>
   Find (\<lambda>k. k) 1 full_table = Some 10 \<and>
   Insert (\<lambda>k. k) 1 30 full_table = Some split_table \<and>
   Find (\<lambda>k. k) 1 split_table = Some 30 \<and>
   (global_depth full_table, length (dir full_table), bucket_cnt full_table) = (0, 1, 1) \<and>
   (global_depth split_table, length (dir split_table), bucket_cnt split_table) = (1, 2, 2)"
  by (simp add: ht_eval full_table_def split_table_def upt_rec)

section \<open>Properties of the buffer pool manager\<close>

subsection \<open>Evictable bits under the replacer operations\<close>

lemma contains_delete: "contains (AList.delete f m) g \<longleftrightarrow> contains m g \<and> g \<noteq> f"
  by (auto simp: contains_def delete_conv')

lemma contains_update: "contains (AList.update f v m) g \<longleftrightarrow> g = f \<or> contains m g"
  by (auto simp: contains_def update_conv')

lemma evictable_RecordAccess: "evictable (RecordAccess f r) g = evictable r g"
  by (simp add: evictable_def RecordAccess_def Let_def)

lemma evictable_SetEvictable_False:
  "evictable (SetEvictable f False r) g \<longleftrightarrow> evictable r g \<and> g \<noteq> f"
  by (simp add: evictable_def SetEvictable_def contains_delete)

lemma evictable_Remove_frame:
  "evictable (Remove_frame f r) g \<longleftrightarrow> evictable r g \<and> g \<noteq> f"
  by (simp add: evictable_def Remove_frame_def contains_delete)

lemma evictable_Evict:
  "evictable (snd (snd (Evict r))) g \<Longrightarrow> evictable r g"
  by (auto simp: evictable_def Evict_def Let_def contains_delete split: prod.splits if_splits)

lemma evictable_SetEvictable_True:
  "evictable (SetEvictable f True r) g \<longleftrightarrow> evictable r g \<or> (g = f \<and> tracked r f)"
  by (auto simp: evictable_def SetEvictable_def Let_def contains_update tracked_def)

lemma Evict_failure:
  "Evict r = (False, f, r') \<Longrightarrow> r' = r\<lparr>current_timestamp := current_timestamp r + 1\<rparr>"
  by (auto simp: Evict_def Let_def split: prod.splits if_splits)

subsection \<open>Pins and evictable bits under the manager operations\<close>

lemma set_page_simps:
  "pages (set_page f p s) = (pages s)[nat f := p]"
  "replacer (set_page f p s) = replacer s"
  "page_table (set_page f p s) = page_table s"
  "free_list (set_page f p s) = free_list s"
  "disk_manager (set_page f p s) = disk_manager s"
  "next_page_id (set_page f p s) = next_page_id s"
  "pool_size (set_page f p s) = pool_size s"
  by (simp_all add: set_page_def pool_size_def)

lemma frame_ok_set_page: "frame_ok (set_page f p s) g = frame_ok s g"
  by (simp add: frame_ok_def set_page_simps)

lemma write_back_simps:
  "pages (write_back f s) = (pages s)[nat f := (pages s ! nat f)\<lparr>is_dirty := False\<rparr>]"
  "replacer (write_back f s) = replacer s"
  "page_table (write_back f s) = page_table s"
  "free_list (write_back f s) = free_list s"
  "next_page_id (write_back f s) = next_page_id s"
  "pool_size (write_back f s) = pool_size s"
  "disk_manager (write_back f s) =
     WritePage (page_id (pages s ! nat f)) (data (pages s ! nat f)) (disk_manager s)"
  by (simp_all add: write_back_def Let_def set_page_def page_at_def pool_size_def)

lemma nth_update_field:
  "pin_count (xs[i := (xs ! i)\<lparr>is_dirty := b\<rparr>] ! j) = pin_count (xs ! j)"
  "page_id (xs[i := (xs ! i)\<lparr>is_dirty := b\<rparr>] ! j) = page_id (xs ! j)"
  "data (xs[i := (xs ! i)\<lparr>is_dirty := b\<rparr>] ! j) = data (xs ! j)"
proof -
  have "xs[i := y] ! j = (if i = j \<and> i < length xs then y else xs ! j)" for y
    by (cases "i < length xs") (simp_all add: nth_list_update list_update_beyond)
  then show "pin_count (xs[i := (xs ! i)\<lparr>is_dirty := b\<rparr>] ! j) = pin_count (xs ! j)"
    "page_id (xs[i := (xs ! i)\<lparr>is_dirty := b\<rparr>] ! j) = page_id (xs ! j)"
    "data (xs[i := (xs ! i)\<lparr>is_dirty := b\<rparr>] ! j) = data (xs ! j)"
    by simp_all
qed

lemma write_back_pin: "pin_count (pages (write_back f s) ! i) = pin_count (pages s ! i)"
  by (simp add: write_back_simps nth_update_field)

lemma acquire_frame_pins:
  assumes "acquire_frame cfg s = Some (res, s1)"
  shows "pool_size s1 = pool_size s"
    and "pin_count (pages s1 ! i) = pin_count (pages s ! i)"
    and "evictable (replacer s1) g \<Longrightarrow> evictable (replacer s) g"
proof -
  obtain ok frame r where ev: "Evict (replacer s) = (ok, frame, r)"
    by (cases "Evict (replacer s)")
  then have r: "r = snd (snd (Evict (replacer s)))" by simp
  have e: "evictable r g \<Longrightarrow> evictable (replacer s) g"
    unfolding r by (rule evictable_Evict)
  from assms ev show "pool_size s1 = pool_size s"
    by (auto simp: acquire_frame_def Let_def pool_size_def write_back_simps
        split: list.splits if_splits)
  from assms ev show "pin_count (pages s1 ! i) = pin_count (pages s ! i)"
    by (auto simp: acquire_frame_def Let_def write_back_simps nth_update_field
        split: list.splits if_splits)
  from assms ev e show "evictable (replacer s1) g \<Longrightarrow> evictable (replacer s) g"
    by (auto simp: acquire_frame_def Let_def write_back_simps evictable_Remove_frame
        split: list.splits if_splits)
qed

lemma install_effect:
  assumes "install cfg pid frame s = Some s'"
  shows "pages s' = pages s" and "free_list s' = free_list s"
    and "disk_manager s' = disk_manager s" and "next_page_id s' = next_page_id s"
    and "evictable (replacer s') g \<longleftrightarrow> evictable (replacer s) g \<and> g \<noteq> frame"
  using assms
  by (auto simp: install_def evictable_SetEvictable_False evictable_RecordAccess
      split: option.splits)

lemma pinned_acquire_frame:
  assumes "acquire_frame cfg s = Some (res, s1)" and "pinned_not_evictable s"
  shows "pinned_not_evictable s1"
  unfolding pinned_not_evictable_def
proof (intro allI impI)
  note a = acquire_frame_pins [OF assms(1)]
  fix f assume "f < pool_size s1" "0 < pin_count (pages s1 ! f)"
  then have "f < pool_size s" "0 < pin_count (pages s ! f)" by (simp_all add: a)
  with assms(2) have "\<not> evictable (replacer s) (int f)" by (simp add: pinned_not_evictable_def)
  then show "\<not> evictable (replacer s1) (int f)" using a(3) by blast
qed

lemma pinned_pin_frame:
  assumes inv: "pinned_not_evictable s1" and ok: "frame_ok s1 frame"
    and pg: "pages s' = (pages s1)[nat frame := p]"
    and ev: "\<And>g. evictable (replacer s') g \<longleftrightarrow> evictable (replacer s1) g \<and> g \<noteq> frame"
  shows "pinned_not_evictable s'"
  unfolding pinned_not_evictable_def
proof (intro allI impI)
  fix f assume f: "f < pool_size s'" and pin: "0 < pin_count (pages s' ! f)"
  from pg have ps: "pool_size s' = pool_size s1" by (simp add: pool_size_def)
  show "\<not> evictable (replacer s') (int f)"
  proof (cases "int f = frame")
    case True
    then show ?thesis by (simp add: ev)
  next
    case False
    with ok have "f \<noteq> nat frame" by (auto simp: frame_ok_def)
    with pg have "pages s' ! f = pages s1 ! f" by simp
    with inv f pin ps show ?thesis
      by (simp add: pinned_not_evictable_def ev)
  qed
qed

lemma pinned_NewPgImp:
  assumes "NewPgImp cfg s = Some (res, s')" and "pinned_not_evictable s"
  shows "pinned_not_evictable s'"
proof -
  from assms(1) obtain r1 s1 where acq: "acquire_frame cfg s = Some (r1, s1)"
    by (auto simp: NewPgImp_def split: option.splits)
  note inv1 = pinned_acquire_frame [OF acq assms(2)]
  show ?thesis
  proof (cases r1)
    case None
    with assms(1) acq inv1 show ?thesis by (simp add: NewPgImp_def)
  next
    case (Some frame)
    let ?s2 = "snd (AllocatePage s1)"
    let ?page = "(ResetMemory cfg (page_at ?s2 frame))
                   \<lparr>page_id := fst (AllocatePage s1), is_dirty := False, pin_count := 1\<rparr>"
    from assms(1) acq Some have ok: "frame_ok s1 frame"
      and ins: "install cfg (fst (AllocatePage s1)) frame (set_page frame ?page ?s2) = Some s'"
      by (auto simp: NewPgImp_def split_beta split: if_splits)
    have "pinned_not_evictable s'"
    proof (rule pinned_pin_frame [OF inv1 ok])
      show "pages s' = (pages s1)[nat frame := ?page]"
        by (simp add: install_effect(1) [OF ins] set_page_simps AllocatePage_def)
      show "evictable (replacer s') g \<longleftrightarrow> evictable (replacer s1) g \<and> g \<noteq> frame" for g
        by (simp add: install_effect(5) [OF ins] set_page_simps AllocatePage_def)
    qed
    then show ?thesis .
  qed
qed

lemma pinned_FetchPgImp:
  assumes "FetchPgImp cfg pid s = Some (res, s')" and "pinned_not_evictable s"
  shows "pinned_not_evictable s'"
proof (cases "Find (std_hash cfg) pid (page_table s)")
  case (Some frame)
  let ?p = "(page_at s frame)\<lparr>pin_count := pin_count (page_at s frame) + 1\<rparr>"
  from assms(1) Some have ok: "frame_ok s frame"
    and s': "s' = (set_page frame ?p s)
        \<lparr>replacer := SetEvictable frame False (RecordAccess frame (replacer s))\<rparr>"
    by (auto simp: FetchPgImp_def Let_def set_page_simps split: if_splits)
  show ?thesis
  proof (rule pinned_pin_frame [OF assms(2) ok])
    show "pages s' = (pages s)[nat frame := ?p]"
      by (simp add: s' set_page_simps)
    show "evictable (replacer s') g \<longleftrightarrow> evictable (replacer s) g \<and> g \<noteq> frame" for g
      by (simp add: s' evictable_SetEvictable_False evictable_RecordAccess)
  qed
next
  case None
  with assms(1) obtain r1 s1 where acq: "acquire_frame cfg s = Some (r1, s1)"
    by (auto simp: FetchPgImp_def split: option.splits)
  note inv1 = pinned_acquire_frame [OF acq assms(2)]
  show ?thesis
  proof (cases r1)
    case n: None
    with assms(1) None acq inv1 show ?thesis by (simp add: FetchPgImp_def)
  next
    case (Some victim)
    let ?page = "(ResetMemory cfg (page_at s1 victim))
                   \<lparr>data := ReadPage pid (disk_manager s1), page_id := pid,
                     is_dirty := False, pin_count := 1\<rparr>"
    from assms(1) None acq Some have ok: "frame_ok s1 victim"
      and ins: "install cfg pid victim (set_page victim ?page s1) = Some s'"
      by (auto simp: FetchPgImp_def split: if_splits)
    show ?thesis
    proof (rule pinned_pin_frame [OF inv1 ok])
      show "pages s' = (pages s1)[nat victim := ?page]"
        by (simp add: install_effect(1) [OF ins] set_page_simps)
      show "evictable (replacer s') g \<longleftrightarrow> evictable (replacer s1) g \<and> g \<noteq> victim" for g
        by (simp add: install_effect(5) [OF ins] set_page_simps)
    qed
  qed
qed

lemma nat_eq_int_iff: "0 \<le> frame \<Longrightarrow> (f = nat frame) = (int f = frame)"
  by auto

lemma pinned_UnpinPgImp:
  assumes "UnpinPgImp cfg pid dirty s = Some (res, s')" and inv: "pinned_not_evictable s"
  shows "pinned_not_evictable s'"
proof (cases "Find (std_hash cfg) pid (page_table s)")
  case None
  with assms show ?thesis by (simp add: UnpinPgImp_def)
next
  case (Some frame)
  with assms(1) have ok: "frame_ok s frame"
    by (auto simp: UnpinPgImp_def split: if_splits)
  then have f0: "0 \<le> frame" and fl: "nat frame < length (pages s)"
    by (auto simp: frame_ok_def pool_size_def)
  show ?thesis
  proof (cases "pin_count (page_at s frame) \<le> 0")
    case True
    with assms Some ok show ?thesis by (simp add: UnpinPgImp_def)
  next
    case False
    define p1 where "p1 = (page_at s frame)\<lparr>pin_count := pin_count (page_at s frame) - 1\<rparr>"
    define p2 where "p2 = (if dirty then p1\<lparr>is_dirty := True\<rparr> else p1)"
    have pc: "pin_count p2 = pin_count (page_at s frame) - 1"
      by (simp add: p2_def p1_def)
    from assms(1) Some ok False
    have s': "s' = (if pin_count p2 = 0
                    then (set_page frame p2 s)\<lparr>replacer := SetEvictable frame True (replacer s)\<rparr>
                    else set_page frame p2 s)"
      by (auto simp: UnpinPgImp_def Let_def p1_def p2_def set_page_simps)
    show ?thesis
      unfolding pinned_not_evictable_def
    proof (intro allI impI)
      fix f assume f: "f < pool_size s'" and pin: "0 < pin_count (pages s' ! f)"
      have pg: "pages s' = (pages s)[nat frame := p2]"
        by (simp add: s' set_page_simps)
      from f pg have fs: "f < pool_size s" by (simp add: pool_size_def)
      show "\<not> evictable (replacer s') (int f)"
      proof (cases "int f = frame")
        case True
        then have "f = nat frame" by simp
        with pg fl pin pc have pos: "0 < pin_count (page_at s frame) - 1" by simp
        then have "replacer s' = replacer s" by (simp add: s' pc set_page_simps)
        moreover from pos have "0 < pin_count (pages s ! f)"
          using \<open>f = nat frame\<close> by (simp add: page_at_def)
        ultimately show ?thesis using inv fs by (simp add: pinned_not_evictable_def)
      next
        case ne: False
        with f0 have "f \<noteq> nat frame" by auto
        with pg pin have "0 < pin_count (pages s ! f)" by simp
        with inv fs have "\<not> evictable (replacer s) (int f)"
          by (simp add: pinned_not_evictable_def)
        with ne show ?thesis
          by (auto simp: s' set_page_simps evictable_SetEvictable_True)
      qed
    qed
  qed
qed

lemma pinned_same_pins:
  assumes "pinned_not_evictable s" and "pool_size s' = pool_size s"
    and "\<And>i. pin_count (pages s' ! i) = pin_count (pages s ! i)"
    and "\<And>g. evictable (replacer s') g \<Longrightarrow> evictable (replacer s) g"
  shows "pinned_not_evictable s'"
  unfolding pinned_not_evictable_def
proof (intro allI impI)
  fix f assume "f < pool_size s'" "0 < pin_count (pages s' ! f)"
  then have "f < pool_size s" "0 < pin_count (pages s ! f)" by (simp_all add: assms(2,3))
  with assms(1) have "\<not> evictable (replacer s) (int f)" by (simp add: pinned_not_evictable_def)
  then show "\<not> evictable (replacer s') (int f)" using assms(4) by blast
qed

lemma pinned_FlushPgImp:
  assumes "FlushPgImp cfg pid s = Some (res, s')" and inv: "pinned_not_evictable s"
  shows "pinned_not_evictable s'"
proof (cases "Find (std_hash cfg) pid (page_table s)")
  case None
  with assms show ?thesis by (simp add: FlushPgImp_def)
next
  case (Some frame)
  with assms(1) have s': "s' = set_page frame ((page_at s frame)\<lparr>is_dirty := False\<rparr>)
       (s\<lparr>disk_manager := WritePage pid (data (page_at s frame)) (disk_manager s)\<rparr>)"
    by (auto simp: FlushPgImp_def Let_def split: if_splits)
  show ?thesis
    by (rule pinned_same_pins [OF inv])
       (simp_all add: s' set_page_simps pool_size_def page_at_def nth_update_field)
qed

lemma flush_frame_pins:
  "pool_size (flush_frame cfg i s) = pool_size s"
  "pin_count (pages (flush_frame cfg i s) ! j) = pin_count (pages s ! j)"
  "replacer (flush_frame cfg i s) = replacer s"
  by (simp_all add: flush_frame_def write_back_simps nth_update_field)

lemma fold_flush_frame_pins:
  "pool_size (fold (flush_frame cfg) is s) = pool_size s \<and>
   pin_count (pages (fold (flush_frame cfg) is s) ! j) = pin_count (pages s ! j) \<and>
   replacer (fold (flush_frame cfg) is s) = replacer s"
  by (induction "is" arbitrary: s) (simp_all add: flush_frame_pins)

lemma pinned_FlushAllPgsImp:
  assumes "pinned_not_evictable s"
  shows "pinned_not_evictable (FlushAllPgsImp cfg s)"
  by (rule pinned_same_pins [OF assms]) (simp_all add: FlushAllPgsImp_def fold_flush_frame_pins)

lemma pinned_DeletePgImp:
  assumes "DeletePgImp cfg pid s = Some (res, s')" and inv: "pinned_not_evictable s"
  shows "pinned_not_evictable s'"
proof (cases "Find (std_hash cfg) pid (page_table s)")
  case None
  with assms show ?thesis by (simp add: DeletePgImp_def)
next
  case (Some frame)
  with assms(1) have ok: "frame_ok s frame"
    by (auto simp: DeletePgImp_def split: if_splits)
  show ?thesis
  proof (cases "0 < pin_count (page_at s frame)")
    case True
    with assms Some ok show ?thesis by (simp add: DeletePgImp_def)
  next
    case False
    define s1 where "s1 = (if is_dirty (page_at s frame) then write_back frame s else s)"
    define page where "page = (ResetMemory cfg (page_at s1 frame))
                         \<lparr>page_id := INVALID_PAGE_ID cfg, pin_count := 0, is_dirty := False\<rparr>"
    from assms(1) Some ok False
    have pg: "pages s' = (pages s1)[nat frame := page]"
      and rp: "replacer s' = Remove_frame frame (replacer s1)"
      by (auto simp: DeletePgImp_def Let_def s1_def page_def set_page_simps page_at_def)
    have s1: "pool_size s1 = pool_size s" "replacer s1 = replacer s"
      "\<And>i. pin_count (pages s1 ! i) = pin_count (pages s ! i)"
      by (simp_all add: s1_def write_back_simps nth_update_field)
    show ?thesis
      unfolding pinned_not_evictable_def
    proof (intro allI impI)
      fix f assume f: "f < pool_size s'" and pin: "0 < pin_count (pages s' ! f)"
      from f pg have fs: "f < pool_size s" by (simp add: pool_size_def s1 [unfolded pool_size_def])
      have "f \<noteq> nat frame"
      proof
        assume "f = nat frame"
        with pg fs pin show False by (simp add: pool_size_def s1 [unfolded pool_size_def] page_def)
      qed
      with pg pin have "0 < pin_count (pages s ! f)" by (simp add: s1)
      with inv fs have "\<not> evictable (replacer s) (int f)" by (simp add: pinned_not_evictable_def)
      then show "\<not> evictable (replacer s') (int f)"
        by (simp add: rp s1 evictable_Remove_frame)
    qed
  qed
qed

lemma pinned_step:
  assumes "bpm_step cfg x s = Some s'" and "pinned_not_evictable s"
  shows "pinned_not_evictable s'"
  using assms
  by (cases x)
     (auto intro: pinned_NewPgImp pinned_FetchPgImp pinned_UnpinPgImp pinned_FlushPgImp
        pinned_FlushAllPgsImp pinned_DeletePgImp)

lemma pinned_run:
  "bpm_run cfg ops s = Some s' \<Longrightarrow> pinned_not_evictable s \<Longrightarrow> pinned_not_evictable s'"
proof (induction ops arbitrary: s)
  case Nil
  then show ?case by simp
next
  case (Cons x xs)
  then obtain s1 where "bpm_step cfg x s = Some s1" "bpm_run cfg xs s1 = Some s'"
    by (auto split: option.splits)
  with Cons show ?case by (blast intro: pinned_step)
qed

lemma pinned_new_bpm: "pinned_not_evictable (new_bpm cfg n dm k)"
  by (simp add: pinned_not_evictable_def new_bpm_def new_page_def pool_size_def)

lemma replicate_2: "replicate 2 x = [x, x]"
  by (simp add: numeral_2_eq_2)

lemmas bpm_eval = replicate_2 NewPgImp_def FetchPgImp_def UnpinPgImp_def FlushPgImp_def DeletePgImp_def
  FlushAllPgsImp_def flush_frame_def acquire_frame_def install_def AllocatePage_def write_back_def
  set_page_def page_at_def frame_ok_def pool_size_def new_bpm_def new_page_def ResetMemory_def
  WritePage_def ReadPage_def test_cfg_def test_disk_def
  new_replacer_def RecordAccess_def SetEvictable_def Remove_frame_def Evict_def

lemma int_of_size_t_0 [simp]: "int_of_size_t 0 = 0"
  by (simp add: int_of_size_t_def)

lemma int_of_size_t_1 [simp]: "int_of_size_t 1 = 1" "int_of_size_t (Suc 0) = 1"
  by (simp_all add: int_of_size_t_def)

lemma pinned_pool_reached:
  "bpm_run test_cfg [NewPage] (new_bpm test_cfg 1 test_disk 2) = Some pinned_pool"
  by (simp add: bpm_eval ht_eval pinned_pool_def)

lemma NewPgImp_pinned_pool:
  "NewPgImp test_cfg pinned_pool =
     Some (None, pinned_pool\<lparr>replacer := (replacer pinned_pool)\<lparr>current_timestamp := 3\<rparr>\<rparr>)"
  by (simp add: bpm_eval ht_eval pinned_pool_def)

lemma FetchPgImp_pinned_pool:
  "FetchPgImp test_cfg 5 pinned_pool =
     Some (None, pinned_pool\<lparr>replacer := (replacer pinned_pool)\<lparr>current_timestamp := 3\<rparr>\<rparr>)"
  by (simp add: bpm_eval ht_eval pinned_pool_def)

lemma acquire_frame_none:
  assumes "acquire_frame cfg s = Some (None, s')"
  shows "free_list s = [] \<and> \<not> fst (Evict (replacer s)) \<and>
         s' = s\<lparr>replacer := (replacer s)\<lparr>current_timestamp := current_timestamp (replacer s) + 1\<rparr>\<rparr>"
proof -
  obtain ok frame r where ev: "Evict (replacer s) = (ok, frame, r)"
    by (cases "Evict (replacer s)")
  with assms have "free_list s = []" "\<not> ok" "s' = s\<lparr>replacer := r\<rparr>"
    by (auto simp: acquire_frame_def Let_def split: list.splits if_splits)
  with ev Evict_failure [of "replacer s" frame r] show ?thesis by simp
qed

subsection \<open>A failed NewPage or FetchPage\<close>

text \<open>
  Claim C10, as amended.  When \<open>NewPgImp\<close> or \<open>FetchPgImp\<close> returns no page, the free list
  is empty and \<open>Evict\<close> has found no victim; no frame, no entry of the page table, no
  entry of the free list and no disk page is modified, nothing is written to the disk, the
  page-id counter does not advance; the one change is in the replacer, whose clock the
  failed \<open>Evict\<close> has advanced by one.
\<close>

theorem failed_allocation_effect:
  assumes "NewPgImp cfg s = Some (None, s') \<or> FetchPgImp cfg pid s = Some (None, s')"
  shows "free_list s = [] \<and> \<not> fst (Evict (replacer s)) \<and>
         pages s' = pages s \<and> page_table s' = page_table s \<and> free_list s' = free_list s \<and>
         disk_manager s' = disk_manager s \<and> next_page_id s' = next_page_id s \<and>
         replacer s' = (replacer s)\<lparr>current_timestamp := current_timestamp (replacer s) + 1\<rparr>"
proof -
  from assms have "acquire_frame cfg s = Some (None, s')"
    by (auto simp: NewPgImp_def FetchPgImp_def split_beta Let_def
        split: option.splits if_splits)
  from acquire_frame_none [OF this] show ?thesis by simp
qed

theorem failed_allocation_effect_witness:
  "(NewPgImp test_cfg pinned_pool =
      Some (None, pinned_pool\<lparr>replacer := (replacer pinned_pool)\<lparr>current_timestamp := 3\<rparr>\<rparr>) \<or>
    FetchPgImp test_cfg 5 pinned_pool =
      Some (None, pinned_pool\<lparr>replacer := (replacer pinned_pool)\<lparr>current_timestamp := 3\<rparr>\<rparr>)) \<and>
   free_list pinned_pool = [] \<and> \<not> fst (Evict (replacer pinned_pool)) \<and>
   current_timestamp (replacer pinned_pool) + 1 = 3"
proof -
  have h: "NewPgImp test_cfg pinned_pool =
      Some (None, pinned_pool\<lparr>replacer := (replacer pinned_pool)\<lparr>current_timestamp := 3\<rparr>\<rparr>) \<or>
    FetchPgImp test_cfg 5 pinned_pool =
      Some (None, pinned_pool\<lparr>replacer := (replacer pinned_pool)\<lparr>current_timestamp := 3\<rparr>\<rparr>)"
    by (simp add: NewPgImp_pinned_pool)
  from failed_allocation_effect [OF h] h show ?thesis
    by (simp add: pinned_pool_def)
qed

text \<open>
  Claim C10, as stated, fails: in the pool of one frame whose page is pinned, \<open>NewPgImp\<close>
  returns no page and the state it leaves differs from the state it started in.
\<close>

theorem failed_NewPage_advances_clock:
  "bpm_run test_cfg [NewPage] (new_bpm test_cfg 1 test_disk 2) = Some pinned_pool \<and>
   NewPgImp test_cfg pinned_pool =
     Some (None, pinned_pool\<lparr>replacer := (replacer pinned_pool)\<lparr>current_timestamp := 3\<rparr>\<rparr>) \<and>
   pinned_pool\<lparr>replacer := (replacer pinned_pool)\<lparr>current_timestamp := 3\<rparr>\<rparr> \<noteq> pinned_pool"
proof -
  have "pinned_pool\<lparr>replacer := (replacer pinned_pool)\<lparr>current_timestamp := 3\<rparr>\<rparr> \<noteq> pinned_pool"
    by (simp add: pinned_pool_def)
  with pinned_pool_reached NewPgImp_pinned_pool show ?thesis by blast
qed

subsection \<open>Pinned frames are not evictable\<close>

text \<open>
  Claim C2.  After any sequence of \<open>NewPage\<close>, \<open>FetchPage\<close>, \<open>UnpinPage\<close>, \<open>FlushPage\<close>,
  \<open>FlushAllPages\<close> and \<open>DeletePage\<close> that returns, started on a new buffer pool, no frame
  with a positive pin count is evictable in the replacer.
\<close>

theorem pinned_frames_not_evictable:
  assumes "bpm_run cfg ops (new_bpm cfg n dm k) = Some s"
    and "f < pool_size s" and "0 < pin_count (pages s ! f)"
  shows "\<not> evictable (replacer s) (int f)"
proof -
  from assms(1) have "pinned_not_evictable s"
    by (rule pinned_run) (rule pinned_new_bpm)
  with assms(2,3) show ?thesis by (simp add: pinned_not_evictable_def)
qed

theorem pinned_frames_not_evictable_witness:
  "bpm_run test_cfg [NewPage] (new_bpm test_cfg 1 test_disk 2) = Some pinned_pool \<and>
   0 < pool_size pinned_pool \<and> 0 < pin_count (pages pinned_pool ! 0) \<and>
   \<not> evictable (replacer pinned_pool) (int 0)"
proof -
  have h: "0 < pool_size pinned_pool" "0 < pin_count (pages pinned_pool ! 0)"
    by (simp_all add: pinned_pool_def pool_size_def)
  from pinned_frames_not_evictable [OF pinned_pool_reached h] pinned_pool_reached h
  show ?thesis by simp
qed

subsection \<open>States of the manager\<close>

lemma bpm_wf_Find:
  assumes "bpm_wf s" and "Find hash pid (page_table s) = Some frame"
  shows "frame_ok s frame" and "0 \<le> frame" and "nat frame < length (pages s)"
proof -
  from assms show "frame_ok s frame"
    by (auto simp: bpm_wf_def wf_core_def intro: Find_table_ok)
  then show "0 \<le> frame" and "nat frame < length (pages s)"
    by (auto simp: frame_ok_def pool_size_def)
qed

lemma bpm_wf_pinned:
  assumes "bpm_wf s" and "frame_ok s frame" and "0 < pin_count (page_at s frame)"
  shows "tracked (replacer s) frame" and "\<not> evictable (replacer s) frame"
proof -
  from assms(2) have "nat frame < pool_size s" "int (nat frame) = frame"
    by (auto simp: frame_ok_def)
  with assms(1,3) show "tracked (replacer s) frame" and "\<not> evictable (replacer s) frame"
    by (auto simp: bpm_wf_def pinned_tracked_def pinned_not_evictable_def page_at_def)
qed

lemma tracked_Remove_frame: "tracked (Remove_frame f r) g \<longleftrightarrow> tracked r g \<and> g \<noteq> f"
  by (auto simp: tracked_def Remove_frame_def contains_delete)

lemma replacer_size_simps:
  "replacer_size (RecordAccess f r) = replacer_size r"
  "replacer_size (SetEvictable f b r) = replacer_size r"
  "replacer_size (Remove_frame f r) = replacer_size r"
  "replacer_size (snd (snd (Evict r))) = replacer_size r"
  by (simp_all add: RecordAccess_def SetEvictable_def Remove_frame_def Evict_def Let_def
      split: prod.splits)

lemma tracked_SetEvictable: "tracked (SetEvictable f b r) g = tracked r g"
  by (simp add: tracked_def SetEvictable_def Let_def)

lemma tracked_RecordAccess:
  "tracked (RecordAccess f r) g \<longleftrightarrow>
     tracked r g \<or> (g = f \<and> f < int_of_size_t (replacer_size r))"
  by (auto simp: tracked_def RecordAccess_def Let_def contains_update contains_delete)

lemma tracked_Evict:
  "tracked (snd (snd (Evict r))) g \<Longrightarrow> tracked r g"
  "tracked r g \<Longrightarrow> g \<noteq> fst (snd (Evict r)) \<Longrightarrow> tracked (snd (snd (Evict r))) g"
  by (auto simp: tracked_def Evict_def Let_def contains_delete split: prod.splits if_splits)

lemma frame_ok_cong: "pool_size s' = pool_size s \<Longrightarrow> frame_ok s' = frame_ok s"
  by (auto simp: frame_ok_def)

lemma acquire_frame_cases:
  assumes "acquire_frame cfg s = Some (res, s1)"
  obtains (free) f fs where "free_list s = f # fs" "res = Some f" "s1 = s\<lparr>free_list := fs\<rparr>"
  | (fail) "free_list s = []" "res = None" "s1 = s\<lparr>replacer := snd (snd (Evict (replacer s)))\<rparr>"
  | (clean) frame where "free_list s = []" "res = Some frame" "fst (snd (Evict (replacer s))) = frame"
      "frame_ok s frame" "s1 = s\<lparr>replacer := snd (snd (Evict (replacer s)))\<rparr>"
  | (evict) frame s2 where "free_list s = []" "res = Some frame"
      "fst (snd (Evict (replacer s))) = frame" "frame_ok s frame"
      "s2 = (if is_dirty (page_at s frame) then write_back frame s else s)"
      "s1 = s2\<lparr>replacer := Remove_frame frame (snd (snd (Evict (replacer s)))),
                page_table := snd (Remove (std_hash cfg) (page_id (page_at s frame)) (page_table s))\<rparr>"
proof (cases "free_list s")
  case (Cons f fs)
  with assms free show ?thesis by (simp add: acquire_frame_def)
next
  case Nil
  obtain ok frame r where ev: "Evict (replacer s) = (ok, frame, r)"
    by (cases "Evict (replacer s)")
  show ?thesis
  proof (cases ok)
    case False
    with assms Nil ev fail show ?thesis by (simp add: acquire_frame_def)
  next
    case True
    with assms Nil ev have ok: "frame_ok s frame"
      by (auto simp: acquire_frame_def Let_def frame_ok_def pool_size_def split: if_splits)
    show ?thesis
    proof (cases "page_id (page_at s frame) = INVALID_PAGE_ID cfg")
      case inv: True
      with assms Nil ev True ok have "res = Some frame" "s1 = s\<lparr>replacer := r\<rparr>"
        by (auto simp: acquire_frame_def Let_def frame_ok_def pool_size_def page_at_def)
      with Nil ev ok clean show ?thesis by simp
    next
      case ninv: False
      let ?s2 = "(if is_dirty (page_at s frame) then write_back frame s else s)"
      have pid: "page_id (pages ?s2 ! nat frame) = page_id (pages s ! nat frame)"
        by (simp add: write_back_simps nth_update_field)
      from assms Nil ev True ok ninv have "res = Some frame"
        "s1 = ?s2\<lparr>replacer := Remove_frame frame r,
                page_table := snd (Remove (std_hash cfg) (page_id (page_at s frame)) (page_table s))\<rparr>"
        by (auto simp: acquire_frame_def Let_def frame_ok_def pool_size_def page_at_def
            write_back_simps nth_update_field)
      with Nil ev ok evict [of frame ?s2] show ?thesis by simp
    qed
  qed
qed

lemma pool_size_write_back_if:
  "pool_size (if c then write_back f s else s) = pool_size s"
  by (simp add: write_back_simps)

lemma acquire_frame_core:
  assumes acq: "acquire_frame cfg s = Some (res, s1)" and wf: "wf_core s"
  shows "wf_core s1" and "pool_size s1 = pool_size s"
proof -
  from wf have tok: "table_ok (frame_ok s) (page_table s)"
    and A: "pool_size s < 2 ^ 31" and B: "replacer_size (replacer s) = pool_size s"
    and D: "\<forall>f \<in> set (free_list s). frame_ok s f"
    and E: "\<forall>f. tracked (replacer s) f \<longrightarrow> frame_ok s f"
    by (simp_all add: wf_core_def)
  from acq show ps: "pool_size s1 = pool_size s"
    by (cases rule: acquire_frame_cases) (simp_all add: pool_size_def write_back_simps)
  note fo = frame_ok_cong [OF ps]
  from acq show "wf_core s1"
  proof (cases rule: acquire_frame_cases)
    case (free f fs)
    with A B tok D E show ?thesis
      unfolding wf_core_def fo ps by auto
  next
    case fail
    with A B tok D E tracked_Evict(1) [of "replacer s"] show ?thesis
      unfolding wf_core_def fo ps by (auto simp: replacer_size_simps)
  next
    case (clean frame)
    with A B tok D E tracked_Evict(1) [of "replacer s"] show ?thesis
      unfolding wf_core_def fo ps by (auto simp: replacer_size_simps)
  next
    case (evict frame s2)
    have s2: "free_list s2 = free_list s"
      by (simp add: evict(5) write_back_simps)
    from evict tok have "table_ok (frame_ok s) (page_table s1)"
      by (simp add: table_ok_Remove)
    moreover have "replacer_size (replacer s1) = pool_size s"
      by (simp add: evict(6) replacer_size_simps B)
    moreover have "\<forall>f \<in> set (free_list s1). frame_ok s f"
      using D by (simp add: evict(6) s2)
    moreover have "\<forall>f. tracked (replacer s1) f \<longrightarrow> frame_ok s f"
      using E tracked_Evict(1) [of "replacer s"]
      by (auto simp: evict(6) tracked_Remove_frame)
    ultimately show ?thesis
      unfolding wf_core_def fo ps using A by simp
  qed
qed

lemma acquire_frame_tracked:
  assumes acq: "acquire_frame cfg s = Some (res, s1)" and pt: "pinned_tracked s"
    and f: "f < pool_size s1" and pin: "0 < pin_count (pages s1 ! f)"
  shows "tracked (replacer s1) (int f) \<or> res = Some (int f)"
proof -
  note a = acquire_frame_pins [OF acq]
  from f pin have "f < pool_size s" "0 < pin_count (pages s ! f)" by (simp_all add: a)
  with pt have tr: "tracked (replacer s) (int f)" by (simp add: pinned_tracked_def)
  from acq show ?thesis
  proof (cases rule: acquire_frame_cases)
    case (free f' fs)
    with tr show ?thesis by simp
  next
    case fail
    with acq have "replacer s1 = (replacer s)\<lparr>current_timestamp := current_timestamp (replacer s) + 1\<rparr>"
      using acquire_frame_none [of cfg s s1] by simp
    with tr show ?thesis by (simp add: tracked_def)
  next
    case (clean frame)
    with tr tracked_Evict(2) [of "replacer s" "int f"] show ?thesis by auto
  next
    case (evict frame s2)
    with tr tracked_Evict(2) [of "replacer s" "int f"] show ?thesis
      by (auto simp: tracked_Remove_frame)
  qed
qed

lemma pin_frame_wf:
  assumes core: "wf_core s1" and ok: "frame_ok s1 frame"
    and tr: "\<And>f. f < pool_size s1 \<Longrightarrow> 0 < pin_count (pages s1 ! f) \<Longrightarrow>
               tracked (replacer s1) (int f) \<or> int f = frame"
    and pg: "pages s' = (pages s1)[nat frame := p]"
    and rp: "replacer s' = SetEvictable frame False (RecordAccess frame (replacer s1))"
    and pt: "table_ok (frame_ok s1) (page_table s')"
    and fl: "free_list s' = free_list s1"
  shows "wf_core s' \<and> pinned_tracked s'"
proof (rule conjI)
  from pg have ps: "pool_size s' = pool_size s1" by (simp add: pool_size_def)
  note fo = frame_ok_cong [OF ps]
  from core have A: "pool_size s1 < 2 ^ 31" and B: "replacer_size (replacer s1) = pool_size s1"
    and E: "\<forall>f. tracked (replacer s1) f \<longrightarrow> frame_ok s1 f"
    by (simp_all add: wf_core_def)
  from ok A B have lt: "frame < int_of_size_t (replacer_size (replacer s1))"
    by (simp add: frame_ok_def int_of_size_t_small)
  have tr': "tracked (replacer s') g \<longleftrightarrow> tracked (replacer s1) g \<or> g = frame" for g
    using lt by (auto simp: rp tracked_SetEvictable tracked_RecordAccess)
  have rs: "replacer_size (replacer s') = pool_size s1"
    by (simp add: rp replacer_size_simps B)
  from core ok pt fl E show "wf_core s'"
    unfolding wf_core_def fo ps
    by (auto simp: tr' rs)
  show "pinned_tracked s'"
    unfolding pinned_tracked_def
  proof (intro allI impI)
    fix f assume f: "f < pool_size s'" and pin: "0 < pin_count (pages s' ! f)"
    show "tracked (replacer s') (int f)"
    proof (cases "int f = frame")
      case True
      then show ?thesis by (simp add: tr')
    next
      case False
      with ok have "f \<noteq> nat frame" by (auto simp: frame_ok_def)
      with pg pin have "0 < pin_count (pages s1 ! f)" by simp
      with tr [of f] f ps False show ?thesis by (simp add: tr')
    qed
  qed
qed

lemma install_parts:
  assumes "install cfg pid frame s = Some s'"
  shows "Insert (std_hash cfg) pid frame (page_table s) = Some (page_table s')"
    and "replacer s' = SetEvictable frame False (RecordAccess frame (replacer s))"
  using assms by (auto simp: install_def split: option.splits)

lemma bpm_wf_NewPgImp:
  assumes new: "NewPgImp cfg s = Some (res, s')" and wf: "bpm_wf s"
  shows "bpm_wf s'"
proof -
  from wf have core: "wf_core s" and pt: "pinned_tracked s" and pe: "pinned_not_evictable s"
    by (simp_all add: bpm_wf_def)
  note pe' = pinned_NewPgImp [OF new pe]
  from new obtain r1 s1 where acq: "acquire_frame cfg s = Some (r1, s1)"
    by (auto simp: NewPgImp_def split: option.splits)
  note core1 = acquire_frame_core(1) [OF acq core]
  show ?thesis
  proof (cases r1)
    case None
    with new acq have "s' = s1" by (simp add: NewPgImp_def)
    moreover have "pinned_tracked s1"
      unfolding pinned_tracked_def
      using acquire_frame_tracked [OF acq pt] None by auto
    ultimately show ?thesis using core1 pe' by (simp add: bpm_wf_def)
  next
    case (Some frame)
    let ?s2 = "snd (AllocatePage s1)"
    let ?page = "(ResetMemory cfg (page_at ?s2 frame))
                   \<lparr>page_id := fst (AllocatePage s1), is_dirty := False, pin_count := 1\<rparr>"
    from new acq Some have ok: "frame_ok s1 frame"
      and ins: "install cfg (fst (AllocatePage s1)) frame (set_page frame ?page ?s2) = Some s'"
      by (auto simp: NewPgImp_def split_beta split: if_splits)
    note ip = install_parts [OF ins]
    have "wf_core s' \<and> pinned_tracked s'"
    proof (rule pin_frame_wf [OF core1 ok])
      show "tracked (replacer s1) (int f) \<or> int f = frame"
        if "f < pool_size s1" "0 < pin_count (pages s1 ! f)" for f
        using acquire_frame_tracked [OF acq pt that] Some by auto
      show "pages s' = (pages s1)[nat frame := ?page]"
        by (simp add: install_effect(1) [OF ins] set_page_simps AllocatePage_def)
      show "replacer s' = SetEvictable frame False (RecordAccess frame (replacer s1))"
        by (simp add: ip(2) set_page_simps AllocatePage_def)
      from core1 have "table_ok (frame_ok s1) (page_table s1)" by (simp add: wf_core_def)
      with ip(1) ok show "table_ok (frame_ok s1) (page_table s')"
        by (auto simp: set_page_simps AllocatePage_def intro: table_ok_Insert)
      show "free_list s' = free_list s1"
        by (simp add: install_effect(2) [OF ins] set_page_simps AllocatePage_def)
    qed
    with pe' show ?thesis by (simp add: bpm_wf_def)
  qed
qed

lemma bpm_wf_FetchPgImp:
  assumes fetch: "FetchPgImp cfg pid s = Some (res, s')" and wf: "bpm_wf s"
  shows "bpm_wf s'"
proof -
  from wf have core: "wf_core s" and pt: "pinned_tracked s" and pe: "pinned_not_evictable s"
    by (simp_all add: bpm_wf_def)
  note pe' = pinned_FetchPgImp [OF fetch pe]
  show ?thesis
  proof (cases "Find (std_hash cfg) pid (page_table s)")
    case (Some frame)
    let ?p = "(page_at s frame)\<lparr>pin_count := pin_count (page_at s frame) + 1\<rparr>"
    from fetch Some have ok: "frame_ok s frame"
      and s': "s' = (set_page frame ?p s)
          \<lparr>replacer := SetEvictable frame False (RecordAccess frame (replacer s))\<rparr>"
      by (auto simp: FetchPgImp_def Let_def set_page_simps split: if_splits)
    have "wf_core s' \<and> pinned_tracked s'"
    proof (rule pin_frame_wf [OF core ok])
      show "tracked (replacer s) (int f) \<or> int f = frame"
        if "f < pool_size s" "0 < pin_count (pages s ! f)" for f
        using pt that by (simp add: pinned_tracked_def)
      show "pages s' = (pages s)[nat frame := ?p]" by (simp add: s' set_page_simps)
      show "replacer s' = SetEvictable frame False (RecordAccess frame (replacer s))"
        by (simp add: s')
      from core show "table_ok (frame_ok s) (page_table s')"
        by (simp add: s' set_page_simps wf_core_def)
      show "free_list s' = free_list s" by (simp add: s' set_page_simps)
    qed
    with pe' show ?thesis by (simp add: bpm_wf_def)
  next
    case None
    with fetch obtain r1 s1 where acq: "acquire_frame cfg s = Some (r1, s1)"
      by (auto simp: FetchPgImp_def split: option.splits)
    note core1 = acquire_frame_core(1) [OF acq core]
    show ?thesis
    proof (cases r1)
      case n: None
      with fetch None acq have "s' = s1" by (simp add: FetchPgImp_def)
      moreover have "pinned_tracked s1"
        unfolding pinned_tracked_def
        using acquire_frame_tracked [OF acq pt] n by auto
      ultimately show ?thesis using core1 pe' by (simp add: bpm_wf_def)
    next
      case (Some victim)
      let ?page = "(ResetMemory cfg (page_at s1 victim))
                     \<lparr>data := ReadPage pid (disk_manager s1), page_id := pid,
                       is_dirty := False, pin_count := 1\<rparr>"
      from fetch None acq Some have ok: "frame_ok s1 victim"
        and ins: "install cfg pid victim (set_page victim ?page s1) = Some s'"
        by (auto simp: FetchPgImp_def split: if_splits)
      note ip = install_parts [OF ins]
      have "wf_core s' \<and> pinned_tracked s'"
      proof (rule pin_frame_wf [OF core1 ok])
        show "tracked (replacer s1) (int f) \<or> int f = victim"
          if "f < pool_size s1" "0 < pin_count (pages s1 ! f)" for f
          using acquire_frame_tracked [OF acq pt that] Some by auto
        show "pages s' = (pages s1)[nat victim := ?page]"
          by (simp add: install_effect(1) [OF ins] set_page_simps)
        show "replacer s' = SetEvictable victim False (RecordAccess victim (replacer s1))"
          by (simp add: ip(2) set_page_simps)
        from core1 have "table_ok (frame_ok s1) (page_table s1)" by (simp add: wf_core_def)
        with ip(1) ok show "table_ok (frame_ok s1) (page_table s')"
          by (auto simp: set_page_simps intro: table_ok_Insert)
        show "free_list s' = free_list s1"
          by (simp add: install_effect(2) [OF ins] set_page_simps)
      qed
      with pe' show ?thesis by (simp add: bpm_wf_def)
    qed
  qed
qed

lemma wf_same:
  assumes core: "wf_core s" and pt: "pinned_tracked s"
    and ps: "pool_size s' = pool_size s" and tb: "page_table s' = page_table s"
    and fl: "free_list s' = free_list s"
    and rs: "replacer_size (replacer s') = replacer_size (replacer s)"
    and tr: "\<And>g. tracked (replacer s') g = tracked (replacer s) g"
    and pin: "\<And>i. 0 < pin_count (pages s' ! i) \<Longrightarrow> 0 < pin_count (pages s ! i)"
  shows "wf_core s' \<and> pinned_tracked s'"
proof
  from core show "wf_core s'"
    unfolding wf_core_def frame_ok_cong [OF ps] ps tb fl rs tr .
  from pt pin show "pinned_tracked s'"
    unfolding pinned_tracked_def ps tr by blast
qed

lemma bpm_wf_UnpinPgImp:
  assumes un: "UnpinPgImp cfg pid dirty s = Some (res, s')" and wf: "bpm_wf s"
  shows "bpm_wf s'"
proof -
  from wf have core: "wf_core s" and pt: "pinned_tracked s" and pe: "pinned_not_evictable s"
    by (simp_all add: bpm_wf_def)
  note pe' = pinned_UnpinPgImp [OF un pe]
  show ?thesis
  proof (cases "Find (std_hash cfg) pid (page_table s)")
    case None
    with un wf show ?thesis by (simp add: UnpinPgImp_def)
  next
    case (Some frame)
    note ok = bpm_wf_Find [OF wf Some]
    show ?thesis
    proof (cases "pin_count (page_at s frame) \<le> 0")
      case True
      with un Some ok(1) wf show ?thesis by (simp add: UnpinPgImp_def)
    next
      case False
      define p1 where "p1 = (page_at s frame)\<lparr>pin_count := pin_count (page_at s frame) - 1\<rparr>"
      define p2 where "p2 = (if dirty then p1\<lparr>is_dirty := True\<rparr> else p1)"
      have pc: "pin_count p2 = pin_count (page_at s frame) - 1"
        by (simp add: p2_def p1_def)
      from un Some ok(1) False
      have s': "s' = (if pin_count p2 = 0
                      then (set_page frame p2 s)\<lparr>replacer := SetEvictable frame True (replacer s)\<rparr>
                      else set_page frame p2 s)"
        by (auto simp: UnpinPgImp_def Let_def p1_def p2_def set_page_simps)
      have "wf_core s' \<and> pinned_tracked s'"
      proof (rule wf_same [OF core pt])
        show "pool_size s' = pool_size s" "page_table s' = page_table s"
          "free_list s' = free_list s"
          "replacer_size (replacer s') = replacer_size (replacer s)"
          by (simp_all add: s' set_page_simps replacer_size_simps pool_size_def)
        show "tracked (replacer s') g = tracked (replacer s) g" for g
          by (simp add: s' set_page_simps tracked_SetEvictable)
        have "pages s' = (pages s)[nat frame := p2]" by (simp add: s' set_page_simps)
        then show "0 < pin_count (pages s ! i)" if "0 < pin_count (pages s' ! i)" for i
          using that ok(3) by (cases "i = nat frame") (simp_all add: pc page_at_def)
      qed
      with pe' show ?thesis by (simp add: bpm_wf_def)
    qed
  qed
qed

lemma bpm_wf_FlushPgImp:
  assumes fl: "FlushPgImp cfg pid s = Some (res, s')" and wf: "bpm_wf s"
  shows "bpm_wf s'"
proof -
  from wf have core: "wf_core s" and pt: "pinned_tracked s" and pe: "pinned_not_evictable s"
    by (simp_all add: bpm_wf_def)
  note pe' = pinned_FlushPgImp [OF fl pe]
  show ?thesis
  proof (cases "Find (std_hash cfg) pid (page_table s)")
    case None
    with fl wf show ?thesis by (simp add: FlushPgImp_def)
  next
    case (Some frame)
    with fl have s': "s' = set_page frame ((page_at s frame)\<lparr>is_dirty := False\<rparr>)
       (s\<lparr>disk_manager := WritePage pid (data (page_at s frame)) (disk_manager s)\<rparr>)"
      by (auto simp: FlushPgImp_def Let_def split: if_splits)
    have "wf_core s' \<and> pinned_tracked s'"
      by (rule wf_same [OF core pt])
         (simp_all add: s' set_page_simps pool_size_def page_at_def nth_update_field)
    with pe' show ?thesis by (simp add: bpm_wf_def)
  qed
qed

lemma fold_flush_frame_rest:
  "page_table (fold (flush_frame cfg) is s) = page_table s \<and>
   free_list (fold (flush_frame cfg) is s) = free_list s"
  by (induction "is" arbitrary: s) (simp_all add: flush_frame_def write_back_simps)

lemma bpm_wf_FlushAllPgsImp:
  assumes wf: "bpm_wf s"
  shows "bpm_wf (FlushAllPgsImp cfg s)"
proof -
  from wf have core: "wf_core s" and pt: "pinned_tracked s" and pe: "pinned_not_evictable s"
    by (simp_all add: bpm_wf_def)
  have "wf_core (FlushAllPgsImp cfg s) \<and> pinned_tracked (FlushAllPgsImp cfg s)"
    by (rule wf_same [OF core pt])
       (simp_all add: FlushAllPgsImp_def fold_flush_frame_pins fold_flush_frame_rest)
  with pinned_FlushAllPgsImp [OF pe, of cfg] show ?thesis by (simp add: bpm_wf_def)
qed

lemma bpm_wf_DeletePgImp:
  assumes del: "DeletePgImp cfg pid s = Some (res, s')" and wf: "bpm_wf s"
  shows "bpm_wf s'"
proof -
  from wf have core: "wf_core s" and pt: "pinned_tracked s" and pe: "pinned_not_evictable s"
    by (simp_all add: bpm_wf_def)
  note pe' = pinned_DeletePgImp [OF del pe]
  show ?thesis
  proof (cases "Find (std_hash cfg) pid (page_table s)")
    case None
    with del wf show ?thesis by (simp add: DeletePgImp_def)
  next
    case (Some frame)
    note ok = bpm_wf_Find [OF wf Some]
    show ?thesis
    proof (cases "0 < pin_count (page_at s frame)")
      case True
      with del Some ok(1) wf show ?thesis by (simp add: DeletePgImp_def)
    next
      case False
      define s1 where "s1 = (if is_dirty (page_at s frame) then write_back frame s else s)"
      define page where "page = (ResetMemory cfg (page_at s1 frame))
                           \<lparr>page_id := INVALID_PAGE_ID cfg, pin_count := 0, is_dirty := False\<rparr>"
      from del Some ok(1) False
      have pg: "pages s' = (pages s1)[nat frame := page]"
        and rp: "replacer s' = Remove_frame frame (replacer s1)"
        and tb: "page_table s' = snd (Remove (std_hash cfg) pid (page_table s1))"
        and fl: "free_list s' = free_list s1 @ [frame]"
        by (auto simp: DeletePgImp_def Let_def s1_def page_def set_page_simps page_at_def)
      have s1: "pool_size s1 = pool_size s" "replacer s1 = replacer s"
        "page_table s1 = page_table s" "free_list s1 = free_list s"
        "\<And>i. pin_count (pages s1 ! i) = pin_count (pages s ! i)"
        by (simp_all add: s1_def write_back_simps nth_update_field)
      from pg have ps: "pool_size s' = pool_size s"
        by (simp add: pool_size_def s1(1) [unfolded pool_size_def])
      note fo = frame_ok_cong [OF ps]
      from core have A: "pool_size s < 2 ^ 31" and B: "replacer_size (replacer s) = pool_size s"
        and C: "table_ok (frame_ok s) (page_table s)"
        and D: "\<forall>f \<in> set (free_list s). frame_ok s f"
        and E: "\<forall>f. tracked (replacer s) f \<longrightarrow> frame_ok s f"
        by (simp_all add: wf_core_def)
      have "wf_core s'"
        unfolding wf_core_def fo ps
        using A B D E ok(1) table_ok_Remove [OF C, of "std_hash cfg" pid]
        by (simp add: rp tb fl s1 replacer_size_simps tracked_Remove_frame)
      moreover have "pinned_tracked s'"
        unfolding pinned_tracked_def
      proof (intro allI impI)
        fix f assume f: "f < pool_size s'" and pin: "0 < pin_count (pages s' ! f)"
        have ne: "f \<noteq> nat frame"
        proof
          assume "f = nat frame"
          with pg f pin ps s1(1) show False by (simp add: pool_size_def page_def)
        qed
        with pg pin have "0 < pin_count (pages s ! f)" by (simp add: s1)
        with pt f ps have "tracked (replacer s) (int f)" by (simp add: pinned_tracked_def)
        moreover from ne ok(2) have "int f \<noteq> frame" by auto
        ultimately show "tracked (replacer s') (int f)"
          by (simp add: rp s1 tracked_Remove_frame)
      qed
      ultimately show ?thesis using pe' by (simp add: bpm_wf_def)
    qed
  qed
qed

lemma bpm_wf_step:
  assumes "bpm_step cfg x s = Some s'" and "bpm_wf s"
  shows "bpm_wf s'"
  using assms
  by (cases x)
     (auto intro: bpm_wf_NewPgImp bpm_wf_FetchPgImp bpm_wf_UnpinPgImp bpm_wf_FlushPgImp
        bpm_wf_FlushAllPgsImp bpm_wf_DeletePgImp)

lemma bpm_wf_run:
  "bpm_run cfg ops s = Some s' \<Longrightarrow> bpm_wf s \<Longrightarrow> bpm_wf s'"
proof (induction ops arbitrary: s)
  case Nil
  then show ?case by simp
next
  case (Cons x xs)
  then obtain s1 where "bpm_step cfg x s = Some s1" "bpm_run cfg xs s1 = Some s'"
    by (auto split: option.splits)
  with Cons show ?case by (blast intro: bpm_wf_step)
qed

lemma bpm_wf_new:
  assumes "n < 2 ^ 31"
  shows "bpm_wf (new_bpm cfg n dm k)"
proof -
  have "int_of_size_t i = int i" if "i < n" for i
    using that assms by (intro int_of_size_t_small) simp
  then have "\<forall>f \<in> set (map int_of_size_t [0..<n]). 0 \<le> f \<and> f < int n"
    by auto
  with assms have "wf_core (new_bpm cfg n dm k)" "pinned_tracked (new_bpm cfg n dm k)"
    by (simp_all add: wf_core_def pinned_tracked_def new_bpm_def
        pool_size_def frame_ok_def new_replacer_def tracked_def contains_def table_ok_new
        new_page_def)
  then show ?thesis by (simp add: bpm_wf_def pinned_new_bpm)
qed

lemma bpm_wf_reachable:
  assumes "bpm_run cfg ops (new_bpm cfg n dm k) = Some s" and "n < 2 ^ 31"
  shows "bpm_wf s"
  using assms(1) by (rule bpm_wf_run) (rule bpm_wf_new [OF assms(2)])


lemma one_frame: "(1::nat) < 2 ^ 31"
  by simp

subsection \<open>FlushPage\<close>

text \<open>
  Claim C9.  In every state reached from a new pool of fewer than \<open>2 ^ 31\<close> frames,
  \<open>FlushPgImp\<close> returns false and changes nothing when the page table has no entry for
  the page id; otherwise it returns true, whatever the dirty flag is: the bytes of the
  frame are written to the disk under the page id, the dirty flag of the frame is
  cleared, and nothing else changes, in particular not the pin count.
\<close>

theorem FlushPgImp_effect:
  assumes run: "bpm_run cfg ops (new_bpm cfg n dm k) = Some s" and n: "n < 2 ^ 31"
  shows "(Find (std_hash cfg) pid (page_table s) = None \<longrightarrow>
            FlushPgImp cfg pid s = Some (False, s)) \<and>
         (\<forall>frame. Find (std_hash cfg) pid (page_table s) = Some frame \<longrightarrow>
            (\<exists>s'. FlushPgImp cfg pid s = Some (True, s') \<and>
               s' = s\<lparr>disk_manager := WritePage pid (data (page_at s frame)) (disk_manager s),
                       pages := (pages s)[nat frame := (page_at s frame)\<lparr>is_dirty := False\<rparr>]\<rparr> \<and>
               write_log (disk_manager s') =
                 write_log (disk_manager s) @ [(pid, data (page_at s frame))] \<and>
               \<not> is_dirty (page_at s' frame) \<and>
               pin_count (page_at s' frame) = pin_count (page_at s frame)))"
proof -
  from run n have wf: "bpm_wf s" by (rule bpm_wf_reachable)
  show ?thesis
  proof (intro conjI allI impI)
    assume "Find (std_hash cfg) pid (page_table s) = None"
    then show "FlushPgImp cfg pid s = Some (False, s)" by (simp add: FlushPgImp_def)
  next
    fix frame assume f: "Find (std_hash cfg) pid (page_table s) = Some frame"
    note ok = bpm_wf_Find [OF wf f]
    let ?s' = "s\<lparr>disk_manager := WritePage pid (data (page_at s frame)) (disk_manager s),
                  pages := (pages s)[nat frame := (page_at s frame)\<lparr>is_dirty := False\<rparr>]\<rparr>"
    from f ok(1) have "FlushPgImp cfg pid s = Some (True, ?s')"
      by (simp add: FlushPgImp_def Let_def set_page_def)
    moreover from ok(3) have "\<not> is_dirty (page_at ?s' frame)"
      "pin_count (page_at ?s' frame) = pin_count (page_at s frame)"
      by (simp_all add: page_at_def)
    ultimately show "\<exists>s'. FlushPgImp cfg pid s = Some (True, s') \<and>
                 s' = ?s' \<and>
                 write_log (disk_manager s') =
                   write_log (disk_manager s) @ [(pid, data (page_at s frame))] \<and>
                 \<not> is_dirty (page_at s' frame) \<and>
                 pin_count (page_at s' frame) = pin_count (page_at s frame)"
      by (simp add: WritePage_def)
  qed
qed

theorem FlushPgImp_effect_witness:
  "bpm_run test_cfg [NewPage] (new_bpm test_cfg 1 test_disk 2) = Some pinned_pool \<and>
   (1::nat) < 2 ^ 31 \<and>
   Find (std_hash test_cfg) 5 (page_table pinned_pool) = None \<and>
   FlushPgImp test_cfg 5 pinned_pool = Some (False, pinned_pool) \<and>
   Find (std_hash test_cfg) 0 (page_table pinned_pool) = Some 0 \<and>
   (\<exists>s'. FlushPgImp test_cfg 0 pinned_pool = Some (True, s') \<and>
      write_log (disk_manager s') = [(0, [0, 0])] \<and>
      \<not> is_dirty (page_at s' 0) \<and> pin_count (page_at s' 0) = 1)"
proof -
  have f: "Find (std_hash test_cfg) 5 (page_table pinned_pool) = None"
    "Find (std_hash test_cfg) 0 (page_table pinned_pool) = Some 0"
    by (simp_all add: ht_eval pinned_pool_def test_cfg_def)
  note t = FlushPgImp_effect [OF pinned_pool_reached one_frame]
  from t [of 5] f(1) have "FlushPgImp test_cfg 5 pinned_pool = Some (False, pinned_pool)"
    by simp
  moreover from t [of 0] f(2)
  have "\<exists>s'. FlushPgImp test_cfg 0 pinned_pool = Some (True, s') \<and>
      write_log (disk_manager s') = [(0, [0, 0])] \<and>
      \<not> is_dirty (page_at s' 0) \<and> pin_count (page_at s' 0) = 1"
    by (simp add: pinned_pool_def page_at_def test_disk_def)
  ultimately show ?thesis using pinned_pool_reached f by simp
qed

subsection \<open>UnpinPage\<close>

text \<open>
  Claim C7.  In every state reached from a new pool of fewer than \<open>2 ^ 31\<close> frames,
  \<open>UnpinPgImp\<close> returns false iff the page table has no entry for the page id or the
  frame it names has a pin count of at most 0, and then the state is unchanged.  Otherwise
  the pin count of the frame is decremented by one, its dirty flag is the old flag or
  the argument (set by a true argument, never cleared), the frame is evictable
  afterwards iff its pin count is now zero, the evictable bits of all other frames and
  every other part of the state are unchanged.
\<close>

theorem UnpinPgImp_effect:
  assumes run: "bpm_run cfg ops (new_bpm cfg n dm k) = Some s" and n: "n < 2 ^ 31"
  shows "\<exists>res s'. UnpinPgImp cfg pid dirty s = Some (res, s') \<and>
     (\<not> res \<longleftrightarrow>
        (Find (std_hash cfg) pid (page_table s) = None \<or>
         (\<exists>frame. Find (std_hash cfg) pid (page_table s) = Some frame \<and>
                  pin_count (page_at s frame) \<le> 0))) \<and>
     (\<not> res \<longrightarrow> s' = s) \<and>
     (\<forall>frame. res \<and> Find (std_hash cfg) pid (page_table s) = Some frame \<longrightarrow>
        pages s' = (pages s)[nat frame := (page_at s frame)
           \<lparr>pin_count := pin_count (page_at s frame) - 1,
             is_dirty := dirty \<or> is_dirty (page_at s frame)\<rparr>] \<and>
        pin_count (page_at s' frame) = pin_count (page_at s frame) - 1 \<and>
        is_dirty (page_at s' frame) = (dirty \<or> is_dirty (page_at s frame)) \<and>
        (evictable (replacer s') frame \<longleftrightarrow> pin_count (page_at s' frame) = 0) \<and>
        (\<forall>g. g \<noteq> frame \<longrightarrow> evictable (replacer s') g = evictable (replacer s) g) \<and>
        page_table s' = page_table s \<and> free_list s' = free_list s \<and>
        disk_manager s' = disk_manager s \<and> next_page_id s' = next_page_id s)"
proof -
  from run n have wf: "bpm_wf s" by (rule bpm_wf_reachable)
  show ?thesis
  proof (cases "Find (std_hash cfg) pid (page_table s)")
    case None
    then have "UnpinPgImp cfg pid dirty s = Some (False, s)" by (simp add: UnpinPgImp_def)
    with None show ?thesis by (intro exI [of _ False] exI [of _ s]) simp
  next
    case (Some frame)
    note ok = bpm_wf_Find [OF wf Some]
    show ?thesis
    proof (cases "pin_count (page_at s frame) \<le> 0")
      case True
      with Some ok(1) have "UnpinPgImp cfg pid dirty s = Some (False, s)"
        by (simp add: UnpinPgImp_def)
      with Some True show ?thesis by (intro exI [of _ False] exI [of _ s]) simp
    next
      case False
      then have pos: "0 < pin_count (page_at s frame)" by simp
      note tr = bpm_wf_pinned [OF wf ok(1) pos]
      define p2 where "p2 = (page_at s frame)
             \<lparr>pin_count := pin_count (page_at s frame) - 1,
               is_dirty := dirty \<or> is_dirty (page_at s frame)\<rparr>"
      define s' where "s' = (if pin_count p2 = 0
          then (set_page frame p2 s)\<lparr>replacer := SetEvictable frame True (replacer s)\<rparr>
          else set_page frame p2 s)"
      from Some ok(1) False have res: "UnpinPgImp cfg pid dirty s = Some (True, s')"
        by (auto simp: UnpinPgImp_def Let_def s'_def p2_def set_page_simps)
      have pg: "pages s' = (pages s)[nat frame := p2]"
        and rest: "page_table s' = page_table s" "free_list s' = free_list s"
          "disk_manager s' = disk_manager s" "next_page_id s' = next_page_id s"
        by (simp_all add: s'_def set_page_simps)
      from pg ok(3) have at: "page_at s' frame = p2" by (simp add: page_at_def)
      have ev: "evictable (replacer s') g \<longleftrightarrow>
          evictable (replacer s) g \<or> (g = frame \<and> pin_count p2 = 0)" for g
        using tr(1) by (simp add: s'_def set_page_simps evictable_SetEvictable_True)
      from tr(2) have "evictable (replacer s') frame \<longleftrightarrow> pin_count (page_at s' frame) = 0"
        by (simp add: ev at)
      moreover have "\<forall>g. g \<noteq> frame \<longrightarrow> evictable (replacer s') g = evictable (replacer s) g"
        by (simp add: ev)
      ultimately show ?thesis
        using res Some False pg rest
        by (intro exI [of _ True] exI [of _ s']) (simp add: at, simp add: p2_def)
    qed
  qed
qed

theorem UnpinPgImp_effect_witness:
  "bpm_run test_cfg [NewPage] (new_bpm test_cfg 1 test_disk 2) = Some pinned_pool \<and>
   (1::nat) < 2 ^ 31 \<and>
   Find (std_hash test_cfg) 0 (page_table pinned_pool) = Some 0 \<and>
   UnpinPgImp test_cfg 0 True pinned_pool = Some (True, unpinned_pool) \<and>
   pin_count (page_at pinned_pool 0) = 1 \<and> pin_count (page_at unpinned_pool 0) = 0 \<and>
   is_dirty (page_at unpinned_pool 0) \<and> evictable (replacer unpinned_pool) 0"
proof -
  have f: "Find (std_hash test_cfg) 0 (page_table pinned_pool) = Some 0"
    by (simp add: ht_eval pinned_pool_def test_cfg_def)
  have u: "UnpinPgImp test_cfg 0 True pinned_pool = Some (True, unpinned_pool)"
    by (simp add: bpm_eval ht_eval pinned_pool_def unpinned_pool_def)
  have p: "pin_count (page_at pinned_pool 0) = 1"
    by (simp add: pinned_pool_def page_at_def)
  from UnpinPgImp_effect [OF pinned_pool_reached one_frame, of 0 True] u f p
  have "pin_count (page_at unpinned_pool 0) = 0 \<and> is_dirty (page_at unpinned_pool 0) \<and>
        evictable (replacer unpinned_pool) 0"
    by auto
  with pinned_pool_reached f u p show ?thesis by simp
qed

subsection \<open>DeletePage\<close>



end
